theory Spec2Isabelle
  imports Complex_Main "HOL-Library.Word" "HOL-Library.Multiset" "HOL-Library.Sublist"
begin

chapter \<open>FSPT: the host side of a WebGL path tracer\<close>

text \<open>
  A shallow embedding of \<^verbatim>\<open>src/bvh.js\<close> (bounding boxes, SAH split selection, the
  BVH builder and its serializer) and of the parts of \<^verbatim>\<open>src/main.js\<close> that pack the
  tree, resolve materials, cast the autofocus ray and drive the render loop.

  Conventions of the embedding.
  \<^item> A JavaScript number is an IEEE double. Finite doubles are idealised as reals
    (rounding, overflow and the sign of zero are not modelled); the three special
    values are kept, since the code produces them from finite inputs (\<open>1 / 0\<close>,
    \<open>0 / 0\<close>, the empty bounding box). This is the type \<open>jsnum\<close>.
  \<^item> A thrown \<^verbatim>\<open>TypeError\<close> is the value \<open>Inl TypeError\<close>.
  \<^item> Mutable program state is passed explicitly and returned updated.
\<close>

section \<open>JavaScript numbers and values\<close>

datatype jsnum = Num real | PInf | NInf | NaN

fun jneg :: "jsnum \<Rightarrow> jsnum" where
  "jneg (Num a) = Num (- a)"
| "jneg PInf = NInf"
| "jneg NInf = PInf"
| "jneg NaN = NaN"

fun jadd :: "jsnum \<Rightarrow> jsnum \<Rightarrow> jsnum" where
  "jadd (Num a) (Num b) = Num (a + b)"
| "jadd (Num a) PInf = PInf"
| "jadd (Num a) NInf = NInf"
| "jadd PInf (Num b) = PInf"
| "jadd PInf PInf = PInf"
| "jadd PInf NInf = NaN"
| "jadd NInf (Num b) = NInf"
| "jadd NInf NInf = NInf"
| "jadd NInf PInf = NaN"
| "jadd NaN y = NaN"
| "jadd x NaN = NaN"

definition jsub :: "jsnum \<Rightarrow> jsnum \<Rightarrow> jsnum" where
  "jsub x y = jadd x (jneg y)"

text \<open>The sign of an infinity times, or over, a finite number.\<close>

definition signed_inf :: "bool \<Rightarrow> jsnum" where
  "signed_inf positive = (if positive then PInf else NInf)"

fun jmul :: "jsnum \<Rightarrow> jsnum \<Rightarrow> jsnum" where
  "jmul (Num a) (Num b) = Num (a * b)"
| "jmul (Num a) PInf = (if a = 0 then NaN else signed_inf (0 < a))"
| "jmul (Num a) NInf = (if a = 0 then NaN else signed_inf (a < 0))"
| "jmul PInf (Num b) = (if b = 0 then NaN else signed_inf (0 < b))"
| "jmul NInf (Num b) = (if b = 0 then NaN else signed_inf (b < 0))"
| "jmul PInf PInf = PInf"
| "jmul PInf NInf = NInf"
| "jmul NInf PInf = NInf"
| "jmul NInf NInf = PInf"
| "jmul NaN y = NaN"
| "jmul x NaN = NaN"

text \<open>Division: a zero divisor is taken as \<open>+0\<close>.\<close>

fun jdiv :: "jsnum \<Rightarrow> jsnum \<Rightarrow> jsnum" where
  "jdiv (Num a) (Num b) =
     (if b \<noteq> 0 then Num (a / b) else if a = 0 then NaN else signed_inf (0 < a))"
| "jdiv (Num a) PInf = Num 0"
| "jdiv (Num a) NInf = Num 0"
| "jdiv PInf (Num b) = signed_inf (0 \<le> b)"
| "jdiv NInf (Num b) = signed_inf (b < 0)"
| "jdiv PInf PInf = NaN"
| "jdiv PInf NInf = NaN"
| "jdiv NInf PInf = NaN"
| "jdiv NInf NInf = NaN"
| "jdiv NaN y = NaN"
| "jdiv x NaN = NaN"

text \<open>Comparisons: every comparison with \<open>NaN\<close> is false.\<close>

fun jlt :: "jsnum \<Rightarrow> jsnum \<Rightarrow> bool" where
  "jlt (Num a) (Num b) = (a < b)"
| "jlt (Num a) PInf = True"
| "jlt NInf (Num b) = True"
| "jlt NInf PInf = True"
| "jlt x y = False"

fun jle :: "jsnum \<Rightarrow> jsnum \<Rightarrow> bool" where
  "jle (Num a) (Num b) = (a \<le> b)"
| "jle (Num a) PInf = True"
| "jle NInf (Num b) = True"
| "jle NInf PInf = True"
| "jle PInf PInf = True"
| "jle NInf NInf = True"
| "jle x y = False"

definition jge :: "jsnum \<Rightarrow> jsnum \<Rightarrow> bool" where
  "jge x y = jle y x"

text \<open>\<^verbatim>\<open>Math.min\<close> and \<^verbatim>\<open>Math.max\<close> return \<open>NaN\<close> when an argument is \<open>NaN\<close>.\<close>

definition jmin :: "jsnum \<Rightarrow> jsnum \<Rightarrow> jsnum" where
  "jmin x y = (if x = NaN \<or> y = NaN then NaN else if jlt y x then y else x)"

definition jmax :: "jsnum \<Rightarrow> jsnum \<Rightarrow> jsnum" where
  "jmax x y = (if x = NaN \<or> y = NaN then NaN else if jlt x y then y else x)"

text \<open>A JavaScript value, as far as \<^verbatim>\<open>||\<close> and array cells need it.\<close>

datatype jsval = Undefined | Null | Boolean bool | Number jsnum | String string | Object

fun truthy :: "jsval \<Rightarrow> bool" where
  "truthy Undefined = False"
| "truthy Null = False"
| "truthy (Boolean b) = b"
| "truthy (Number (Num r)) = (r \<noteq> 0)"
| "truthy (Number NaN) = False"
| "truthy (Number PInf) = True"
| "truthy (Number NInf) = True"
| "truthy (String s) = (s \<noteq> [])"
| "truthy Object = True"

text \<open>\<^verbatim>\<open>a || b\<close>: the left operand when it is truthy, the right one otherwise.\<close>

definition js_or :: "jsval \<Rightarrow> jsval \<Rightarrow> jsval" where
  "js_or a b = (if truthy a then a else b)"

datatype error = TypeError

section \<open>Vectors\<close>

text \<open>
  Modelled from the spec: \<^verbatim>\<open>vector.js\<close> (the class \<^verbatim>\<open>Vec3\<close>) is not among the
  sources. The spec lists it as the assumed vector library with dot, cross, add, sub,
  scale and componentwise min, max and inverse; these are the textbook operations on
  3-element arrays of numbers.
\<close>

type_synonym vec3 = "jsnum \<times> jsnum \<times> jsnum"

text \<open>
  \<open>elem3 a i\<close> is \<^verbatim>\<open>a[i]\<close> for a 3-element array \<open>a\<close> and \<open>i\<close> in \<open>{0, 1, 2}\<close>; the
  program indexes such arrays by literals and by the loop variable \<^verbatim>\<open>axis\<close> only.
\<close>

fun elem3 :: "'a \<times> 'a \<times> 'a \<Rightarrow> nat \<Rightarrow> 'a" where
  "elem3 (x, y, z) axis = (if axis = 0 then x else if axis = 1 then y else z)"

fun Vec3_add :: "vec3 \<Rightarrow> vec3 \<Rightarrow> vec3" where
  "Vec3_add (a1, a2, a3) (b1, b2, b3) = (jadd a1 b1, jadd a2 b2, jadd a3 b3)"

fun Vec3_sub :: "vec3 \<Rightarrow> vec3 \<Rightarrow> vec3" where
  "Vec3_sub (a1, a2, a3) (b1, b2, b3) = (jsub a1 b1, jsub a2 b2, jsub a3 b3)"

fun Vec3_scale :: "vec3 \<Rightarrow> jsnum \<Rightarrow> vec3" where
  "Vec3_scale (a1, a2, a3) s = (jmul a1 s, jmul a2 s, jmul a3 s)"

fun Vec3_dot :: "vec3 \<Rightarrow> vec3 \<Rightarrow> jsnum" where
  "Vec3_dot (a1, a2, a3) (b1, b2, b3) = jadd (jadd (jmul a1 b1) (jmul a2 b2)) (jmul a3 b3)"

fun Vec3_cross :: "vec3 \<Rightarrow> vec3 \<Rightarrow> vec3" where
  "Vec3_cross (a1, a2, a3) (b1, b2, b3) =
     (jsub (jmul a2 b3) (jmul a3 b2), jsub (jmul a3 b1) (jmul a1 b3),
      jsub (jmul a1 b2) (jmul a2 b1))"

fun Vec3_min :: "vec3 \<Rightarrow> vec3 \<Rightarrow> vec3" where
  "Vec3_min (a1, a2, a3) (b1, b2, b3) = (jmin a1 b1, jmin a2 b2, jmin a3 b3)"

fun Vec3_max :: "vec3 \<Rightarrow> vec3 \<Rightarrow> vec3" where
  "Vec3_max (a1, a2, a3) (b1, b2, b3) = (jmax a1 b1, jmax a2 b2, jmax a3 b3)"

fun Vec3_inverse :: "vec3 \<Rightarrow> vec3" where
  "Vec3_inverse (a1, a2, a3) = (jdiv (Num 1) a1, jdiv (Num 1) a2, jdiv (Num 1) a3)"

section \<open>Bounding boxes and triangles (bvh.js)\<close>

text \<open>
  \<^verbatim>\<open>BoundingBox\<close>: the fields \<^verbatim>\<open>min\<close> and \<^verbatim>\<open>max\<close>. The cached centroid is a
  memo of \<open>(min + max) * 0.5\<close> that every mutation resets, so it is computed on demand.
\<close>

record bbox =
  bb_min :: vec3
  bb_max :: vec3

definition BoundingBox :: bbox where
  "BoundingBox = \<lparr> bb_min = (PInf, PInf, PInf), bb_max = (NInf, NInf, NInf) \<rparr>"

definition addVertex :: "vec3 \<Rightarrow> bbox \<Rightarrow> bbox" where
  "addVertex vert b = \<lparr> bb_min = Vec3_min vert (bb_min b), bb_max = Vec3_max vert (bb_max b) \<rparr>"

definition addBoundingBox :: "bbox \<Rightarrow> bbox \<Rightarrow> bbox" where
  "addBoundingBox box b =
     \<lparr> bb_min = Vec3_min (bb_min b) (bb_min box), bb_max = Vec3_max (bb_max b) (bb_max box) \<rparr>"

definition centroid :: "bbox \<Rightarrow> vec3" where
  "centroid b = Vec3_scale (Vec3_add (bb_min b) (bb_max b)) (Num 0.5)"

definition getSurfaceArea :: "bbox \<Rightarrow> jsnum" where
  "getSurfaceArea b =
     (let xl = jsub (elem3 (bb_max b) 0) (elem3 (bb_min b) 0);
          yl = jsub (elem3 (bb_max b) 1) (elem3 (bb_min b) 1);
          zl = jsub (elem3 (bb_max b) 2) (elem3 (bb_min b) 2)
      in jmul (jadd (jadd (jmul xl yl) (jmul xl zl)) (jmul yl zl)) (Num 2))"

text \<open>
  \<^verbatim>\<open>Triangle\<close>: its three vertices and the bounding box its constructor computes from
  them. The box is a field of its own: code that later replaces a vertex (the scene
  normalisation of \<^verbatim>\<open>initBVH\<close>) leaves it as it was. UVs, normals, tangents and the
  material are carried along by the program and read by no function of this embedding.
\<close>

record triangle =
  verts :: "vec3 \<times> vec3 \<times> vec3"
  boundingBox :: bbox

definition addTriangle :: "triangle \<Rightarrow> bbox \<Rightarrow> bbox" where
  "addTriangle t b =
     (case verts t of (p0, p1, p2) \<Rightarrow> addVertex p2 (addVertex p1 (addVertex p0 b)))"

definition Triangle :: "vec3 \<times> vec3 \<times> vec3 \<Rightarrow> triangle" where
  "Triangle vs =
     (let this = \<lparr> verts = vs, boundingBox = BoundingBox \<rparr>
      in this\<lparr> boundingBox := addTriangle this BoundingBox \<rparr>)"

section \<open>Nodes and SAH split selection (\<^verbatim>\<open>Node\<close>, bvh.js)\<close>

text \<open>
  An index list is a JavaScript array of triangle indices. A cell is \<open>Some i\<close>, or
  \<open>None\<close> for a cell that was allocated and never written (it reads as
  \<^verbatim>\<open>undefined\<close>). A node receives three of them, one per axis.
\<close>

type_synonym slot = "nat option"
type_synonym indices = "slot list \<times> slot list \<times> slot list"

text \<open>\<^verbatim>\<open>triangles[idx]\<close>: \<^verbatim>\<open>undefined\<close> (\<open>None\<close>) out of range and for an undefined index.\<close>

fun lookup :: "triangle list \<Rightarrow> slot \<Rightarrow> triangle option" where
  "lookup tris None = None"
| "lookup tris (Some i) = (if i < length tris then Some (tris ! i) else None)"

text \<open>
  \<^verbatim>\<open>addNode\<close> adds the triangles of \<^verbatim>\<open>node.indices[0]\<close>; reading \<^verbatim>\<open>verts\<close> of an
  undefined triangle throws.
\<close>

fun addNode :: "triangle list \<Rightarrow> slot list \<Rightarrow> bbox \<Rightarrow> error + bbox" where
  "addNode tris [] b = Inr b"
| "addNode tris (idx # rest) b =
     (case lookup tris idx of
        None \<Rightarrow> Inl TypeError
      | Some t \<Rightarrow> addNode tris rest (addTriangle t b))"

text \<open>
  The first inner loop of \<^verbatim>\<open>setSplit\<close>: \<open>surfaces bb boxes\<close> are the surface areas of
  the growing union, \<^verbatim>\<open>surfacesFront\<close> for the boxes in list order and
  \<^verbatim>\<open>surfacesBack\<close> for the reversed list.
\<close>

fun surfaces :: "bbox \<Rightarrow> bbox list \<Rightarrow> jsnum list" where
  "surfaces bb [] = []"
| "surfaces bb (box # rest) =
     (let bb' = addBoundingBox box bb in getSurfaceArea bb' # surfaces bb' rest)"

text \<open>The cost expression of the second inner loop, for loop index \<open>i\<close>.\<close>

definition split_cost :: "jsnum \<Rightarrow> jsnum list \<Rightarrow> jsnum list \<Rightarrow> nat \<Rightarrow> jsnum" where
  "split_cost parentSurfaceArea surfacesFront surfacesBack i =
     (let sAf = surfacesFront ! i;
          sAb = surfacesBack ! (length surfacesBack - 1 - i)
      in jadd
           (jadd (Num 1)
              (jmul (jmul (jdiv sAf parentSurfaceArea) (Num 1)) (Num (real (i + 1)))))
           (jmul (jmul (jdiv sAb parentSurfaceArea) (Num 1))
              (Num (real (length surfacesFront - 1 - i)))))"

text \<open>
  The search state of \<^verbatim>\<open>setSplit\<close>: \<^verbatim>\<open>bestCost\<close> and the pair
  \<open>(splitAxis, splitIndex)\<close>, \<open>None\<close> as long as the two properties are unset.
\<close>

type_synonym search = "jsnum \<times> (nat \<times> nat) option"

definition try_split :: "jsnum \<Rightarrow> jsnum list \<Rightarrow> jsnum list \<Rightarrow> nat \<Rightarrow> search \<Rightarrow> nat \<Rightarrow> search" where
  "try_split parentSurfaceArea surfacesFront surfacesBack axis st i =
     (let cost = split_cost parentSurfaceArea surfacesFront surfacesBack i
      in if jlt cost (fst st) then (cost, Some (axis, i + 1)) else st)"

text \<open>
  One round of the axis loop. Reading \<^verbatim>\<open>boundingBox\<close> of an undefined triangle
  throws; every cell of the list is read by the first inner loop.
\<close>

definition setSplit_axis :: "triangle list \<Rightarrow> indices \<Rightarrow> jsnum \<Rightarrow> search \<Rightarrow> nat \<Rightarrow> error + search"
  where
  "setSplit_axis tris idxs parentSurfaceArea st axis =
     (let idxCache = elem3 idxs axis
      in if None \<in> lookup tris ` set idxCache then Inl TypeError
         else
           let boxes = map (\<lambda>idx. boundingBox (the (lookup tris idx))) idxCache;
               surfacesFront = surfaces BoundingBox boxes;
               surfacesBack = surfaces BoundingBox (rev boxes)
           in Inr (foldl (try_split parentSurfaceArea surfacesFront surfacesBack axis) st
                     [0..<length idxCache]))"

definition setSplit :: "triangle list \<Rightarrow> indices \<Rightarrow> bbox \<Rightarrow> error + search" where
  "setSplit tris idxs box =
     (let parentSurfaceArea = getSurfaceArea box
      in case setSplit_axis tris idxs parentSurfaceArea (PInf, None) 0 of
           Inl e \<Rightarrow> Inl e
         | Inr st0 \<Rightarrow>
             (case setSplit_axis tris idxs parentSurfaceArea st0 1 of
                Inl e \<Rightarrow> Inl e
              | Inr st1 \<Rightarrow> setSplit_axis tris idxs parentSurfaceArea st1 2))"

text \<open>
  A built node. A leaf keeps its index lists (\<^verbatim>\<open>getTriangles\<close> reads them); an
  internal node has its two children, and \<^verbatim>\<open>clearTempBuffers\<close> has dropped its lists.
  Both keep the box and the split that \<^verbatim>\<open>setSplit\<close> chose.
\<close>

datatype node =
    Leaf bbox "(nat \<times> nat) option" indices
  | Internal bbox "(nat \<times> nat) option" node node

fun node_box :: "node \<Rightarrow> bbox" where
  "node_box (Leaf box sp idxs) = box"
| "node_box (Internal box sp l r) = box"

fun node_split :: "node \<Rightarrow> (nat \<times> nat) option" where
  "node_split (Leaf box sp idxs) = sp"
| "node_split (Internal box sp l r) = sp"

text \<open>The constructor of \<^verbatim>\<open>Node\<close>: the box of the node's triangles, then the split.\<close>

definition new_Node :: "triangle list \<Rightarrow> indices \<Rightarrow> error + (bbox \<times> (nat \<times> nat) option)" where
  "new_Node tris idxs =
     (case addNode tris (elem3 idxs 0) BoundingBox of
        Inl e \<Rightarrow> Inl e
      | Inr box \<Rightarrow>
          (case setSplit tris idxs box of
             Inl e \<Rightarrow> Inl e
           | Inr st \<Rightarrow> Inr (box, snd st)))"

section \<open>The builder (\<^verbatim>\<open>BVH\<close>, bvh.js)\<close>

text \<open>
  Writing \<^verbatim>\<open>a[i] = v\<close>: inside the array the cell is replaced, at its end the array
  grows.
\<close>

definition js_set :: "slot list \<Rightarrow> nat \<Rightarrow> slot \<Rightarrow> slot list" where
  "js_set a i v =
     (if i < length a then a[i := v] else a @ replicate (i - length a) None @ [v])"

text \<open>
  The scan of one remaining axis in \<^verbatim>\<open>_constructCachedIndexList\<close>; the state is
  \<open>(leftIndices[axis], li, rightIndices[axis], ri)\<close>.
\<close>

fun scan_axis ::
  "slot set \<Rightarrow> slot list \<Rightarrow> slot list \<times> nat \<times> slot list \<times> nat \<Rightarrow> slot list \<times> nat \<times> slot list \<times> nat"
  where
  "scan_axis setLeft [] st = st"
| "scan_axis setLeft (idx # rest) (l, li, r, ri) =
     (if idx \<in> setLeft then scan_axis setLeft rest (js_set l li idx, li + 1, r, ri)
      else scan_axis setLeft rest (l, li, js_set r ri idx, ri + 1))"

text \<open>
  \<^verbatim>\<open>_constructCachedIndexList\<close>. With \<^verbatim>\<open>splitAxis\<close> undefined,
  \<^verbatim>\<open>indices[splitAxis]\<close> is undefined and the call of \<^verbatim>\<open>slice\<close> on it throws. The
  result is the pair \<open>(left, right)\<close>.
\<close>

definition constructCachedIndexList ::
  "indices \<Rightarrow> (nat \<times> nat) option \<Rightarrow> error + (indices \<times> indices)" where
  "constructCachedIndexList idxs sp =
     (case sp of
        None \<Rightarrow> Inl TypeError
      | Some (splitAxis, splitIndex) \<Rightarrow>
          if 3 \<le> splitAxis then Inl TypeError
          else
            let leftSplit = take splitIndex (elem3 idxs splitAxis);
                rightSplit = drop splitIndex (elem3 idxs splitAxis);
                setLeft = set leftSplit;
                other = (\<lambda>axis.
                  scan_axis setLeft (elem3 idxs axis)
                    (replicate (length leftSplit) None, 0, replicate (length rightSplit) None, 0));
                left = (\<lambda>axis. if axis = splitAxis then leftSplit else fst (other axis));
                right = (\<lambda>axis.
                  if axis = splitAxis then rightSplit else fst (snd (snd (other axis))))
            in Inr ((left 0, left 1, left 2), (right 0, right 1, right 2)))"

text \<open>
  \<^verbatim>\<open>buildTree\<close>. The first argument bounds the depth of the recursion: \<open>None\<close> says
  that the recursion went deeper. \<^verbatim>\<open>root.splitAxis || 0\<close> is axis 0 when no split
  was chosen. The field \<^verbatim>\<open>depth\<close> of the builder, a running maximum that no other
  function reads, is left out.
\<close>

fun buildTree :: "nat \<Rightarrow> triangle list \<Rightarrow> nat \<Rightarrow> indices \<Rightarrow> (error + node) option" where
  "buildTree 0 tris maxTriangles idxs = None"
| "buildTree (Suc fuel) tris maxTriangles idxs =
     (case new_Node tris idxs of
        Inl e \<Rightarrow> Some (Inl e)
      | Inr (box, sp) \<Rightarrow>
          if length (elem3 idxs (case sp of None \<Rightarrow> 0 | Some (splitAxis, splitIndex) \<Rightarrow> splitAxis))
               \<le> maxTriangles
          then Some (Inr (Leaf box sp idxs))
          else
            (case constructCachedIndexList idxs sp of
               Inl e \<Rightarrow> Some (Inl e)
             | Inr (leftIndices, rightIndices) \<Rightarrow>
                 (case buildTree fuel tris maxTriangles leftIndices of
                    None \<Rightarrow> None
                  | Some (Inl e) \<Rightarrow> Some (Inl e)
                  | Some (Inr l) \<Rightarrow>
                      (case buildTree fuel tris maxTriangles rightIndices of
                         None \<Rightarrow> None
                       | Some (Inl e) \<Rightarrow> Some (Inl e)
                       | Some (Inr r) \<Rightarrow> Some (Inr (Internal box sp l r))))))"

text \<open>
  \<^verbatim>\<open>_sortIndices\<close>: \<^verbatim>\<open>Array.prototype.sort\<close> is stable, and the comparator orders
  two indices by the centroid of their triangles' boxes on the axis. For centroids
  without \<open>NaN\<close> that is the stable sort by this key, here as insertion sort.
\<close>

definition centroid_key :: "triangle list \<Rightarrow> nat \<Rightarrow> nat \<Rightarrow> jsnum" where
  "centroid_key tris axis i = elem3 (centroid (boundingBox (tris ! i))) axis"

fun insert_index :: "triangle list \<Rightarrow> nat \<Rightarrow> nat \<Rightarrow> nat list \<Rightarrow> nat list" where
  "insert_index tris axis i [] = [i]"
| "insert_index tris axis i (j # js) =
     (if jlt (centroid_key tris axis j) (centroid_key tris axis i)
      then j # insert_index tris axis i js
      else i # j # js)"

definition sortIndices :: "triangle list \<Rightarrow> nat list \<Rightarrow> nat \<Rightarrow> nat list" where
  "sortIndices tris ixs axis = foldr (insert_index tris axis) ixs []"

text \<open>The constructor of \<^verbatim>\<open>BVH\<close>; the result is the field \<^verbatim>\<open>root\<close>.\<close>

definition BVH :: "nat \<Rightarrow> triangle list \<Rightarrow> nat \<Rightarrow> (error + node) option" where
  "BVH fuel triangles maxTris =
     (let xIndices = [0..<length triangles];
          yIndices = xIndices;
          zIndices = yIndices
      in buildTree fuel triangles maxTris
           (map Some (sortIndices triangles xIndices 0),
            map Some (sortIndices triangles yIndices 1),
            map Some (sortIndices triangles zIndices 2)))"

section \<open>The serializer (\<^verbatim>\<open>serializeTree\<close>, bvh.js)\<close>

text \<open>
  An element of the serialized array: the node and, for an internal node, the
  ordinals of its children. A leaf's element has no \<^verbatim>\<open>left\<close> and \<^verbatim>\<open>right\<close>
  property (\<open>None\<close>: they read as \<^verbatim>\<open>undefined\<close>).
\<close>

record entry =
  e_node :: node
  e_left :: "int option"
  e_right :: "int option"

text \<open>
  \<^verbatim>\<open>traverseTree\<close> works on the array \<^verbatim>\<open>nodes\<close> and the counter \<^verbatim>\<open>i\<close> of the
  enclosing function, and returns the ordinal of its node. The element it pushes is
  updated in place once the ordinals of the children are known.
\<close>

fun traverseTree :: "node \<Rightarrow> entry list \<times> int \<Rightarrow> int \<times> entry list \<times> int" where
  "traverseTree (Leaf box sp idxs) (nodes, i) =
     (let parent = i + 1
      in (parent,
          nodes @ [\<lparr> e_node = Leaf box sp idxs, e_left = None, e_right = None \<rparr>],
          parent))"
| "traverseTree (Internal box sp l r) (nodes, i) =
     (let parent = i + 1;
          own = length nodes;
          nodes1 = nodes @ [\<lparr> e_node = Internal box sp l r, e_left = None, e_right = None \<rparr>];
          (left, nodes2, i2) = traverseTree l (nodes1, parent);
          nodes3 = nodes2[own := (nodes2 ! own)\<lparr> e_left := Some left \<rparr>];
          (right, nodes4, i4) = traverseTree r (nodes3, i2);
          nodes5 = nodes4[own := (nodes4 ! own)\<lparr> e_right := Some right \<rparr>]
      in (parent, nodes5, i4))"

definition serializeTree :: "node \<Rightarrow> entry list" where
  "serializeTree rootNode = fst (snd (traverseTree rootNode ([], - 1)))"

section \<open>Packing the tree (\<^verbatim>\<open>initBVH\<close>, \<^verbatim>\<open>padBuffer\<close>, \<^verbatim>\<open>maskBVHBuffer\<close>, main.js)\<close>

text \<open>
  \<^verbatim>\<open>getTriangles\<close> of a leaf: the triangles of \<^verbatim>\<open>indices[0]\<close>, \<^verbatim>\<open>undefined\<close> where the
  index names none.
\<close>

definition getTriangles :: "triangle list \<Rightarrow> indices \<Rightarrow> triangle option list" where
  "getTriangles tris idxs = map (lookup tris) (elem3 idxs 0)"

text \<open>
  The buffers of the packing loop. A cell of \<^verbatim>\<open>bvhBuffer\<close> is a number or
  \<^verbatim>\<open>undefined\<close> (\<open>None\<close>). The material, normal and UV buffers, filled in the same
  loop from data this embedding does not carry, are left out.
\<close>

record buffers =
  bvhBuffer :: "jsnum option list"
  trianglesBuffer :: "jsnum list"

fun vec3_cells :: "vec3 \<Rightarrow> jsnum list" where
  "vec3_cells (x, y, z) = [x, y, z]"

definition triangle_cells :: "triangle \<Rightarrow> jsnum list" where
  "triangle_cells t =
     (case verts t of (p0, p1, p2) \<Rightarrow> vec3_cells p0 @ vec3_cells p1 @ vec3_cells p2)"

text \<open>The inner loop over a leaf's triangles; reading \<^verbatim>\<open>verts\<close> of \<^verbatim>\<open>undefined\<close> throws.\<close>

fun push_triangles :: "triangle option list \<Rightarrow> jsnum list \<Rightarrow> error + jsnum list" where
  "push_triangles [] tb = Inr tb"
| "push_triangles (None # rest) tb = Inl TypeError"
| "push_triangles (Some t # rest) tb = push_triangles rest (tb @ triangle_cells t)"

definition ordinal_cell :: "int option \<Rightarrow> jsnum option" where
  "ordinal_cell v = map_option (\<lambda>k. Num (real_of_int k)) v"

text \<open>One round of the loop over \<^verbatim>\<open>bvhArray\<close>.\<close>

definition pack_entry :: "triangle list \<Rightarrow> entry \<Rightarrow> buffers \<Rightarrow> error + buffers" where
  "pack_entry tris e bufs =
     (case e_node e of
        Leaf box sp idxs \<Rightarrow>
          let triIndex = Num (real (length (trianglesBuffer bufs)) / 3 / 3);
              bufferNode =
                [ordinal_cell (e_left e), ordinal_cell (e_right e), Some triIndex]
                  @ map Some (vec3_cells (bb_min box)) @ map Some (vec3_cells (bb_max box))
          in (case push_triangles (getTriangles tris idxs) (trianglesBuffer bufs) of
                Inl err \<Rightarrow> Inl err
              | Inr tb \<Rightarrow>
                  Inr \<lparr> bvhBuffer = bvhBuffer bufs @ bufferNode, trianglesBuffer = tb \<rparr>)
      | Internal box sp l r \<Rightarrow>
          let triIndex = Num (- 1);
              bufferNode =
                [ordinal_cell (e_left e), ordinal_cell (e_right e), Some triIndex]
                  @ map Some (vec3_cells (bb_min box)) @ map Some (vec3_cells (bb_max box))
          in Inr (bufs\<lparr> bvhBuffer := bvhBuffer bufs @ bufferNode \<rparr>))"

fun pack_entries :: "triangle list \<Rightarrow> entry list \<Rightarrow> buffers \<Rightarrow> error + buffers" where
  "pack_entries tris [] bufs = Inr bufs"
| "pack_entries tris (e # es) bufs =
     (case pack_entry tris e bufs of
        Inl err \<Rightarrow> Inl err
      | Inr bufs' \<Rightarrow> pack_entries tris es bufs')"

text \<open>The part of \<^verbatim>\<open>initBVH\<close> from \<^verbatim>\<open>serializeTree\<close> to the end of the packing loop.\<close>

definition pack_tree :: "triangle list \<Rightarrow> node \<Rightarrow> error + buffers" where
  "pack_tree tris rootNode =
     pack_entries tris (serializeTree rootNode) \<lparr> bvhBuffer = [], trianglesBuffer = [] \<rparr>"

text \<open>
  \<^verbatim>\<open>padBuffer\<close> appends \<open>-1\<close> up to a full texture. For the empty buffer the width is
  0, the height and the count are \<open>NaN\<close>, and the loop does not run.
\<close>

definition padBuffer :: "jsnum option list \<Rightarrow> nat \<Rightarrow> nat \<Rightarrow> jsnum option list" where
  "padBuffer buffer perElement channels =
     (let num_pixels = real (length buffer) / real channels;
          root_px = sqrt num_pixels;
          width = real_of_int \<lceil>root_px / real perElement\<rceil> * real perElement;
          height = real_of_int \<lceil>num_pixels / width\<rceil>;
          numToPad = real channels * width * height - real (length buffer)
      in if width = 0 then buffer
         else buffer @ replicate (nat \<lceil>numToPad\<rceil>) (Some (Num (- 1))))"

text \<open>
  \<^verbatim>\<open>maskBVHBuffer\<close>. \<^verbatim>\<open>new Int32Array(bvhBuffer)\<close> converts every cell with
  \<^verbatim>\<open>ToInt32\<close>: \<^verbatim>\<open>undefined\<close>, \<open>NaN\<close> and the infinities give 0, a finite number is
  truncated towards zero and wrapped to 32 bits. The \<^verbatim>\<open>Float32Array\<close> over the same
  memory reads these bit patterns; cells 3 to 8 of every record are then overwritten
  with the numbers themselves. A cell of the result is a 32-bit pattern written as an
  integer, or a number stored as a float (the rounding to single precision is not
  modelled).
\<close>

datatype cell32 = IntBits "32 word" | FloatVal jsnum

fun ToInt32 :: "jsnum option \<Rightarrow> 32 word" where
  "ToInt32 (Some (Num r)) = word_of_int (if 0 \<le> r then \<lfloor>r\<rfloor> else \<lceil>r\<rceil>)"
| "ToInt32 v = 0"

fun ToFloat :: "jsnum option \<Rightarrow> jsnum" where
  "ToFloat None = NaN"
| "ToFloat (Some x) = x"

definition maskBVHBuffer :: "jsnum option list \<Rightarrow> cell32 list" where
  "maskBVHBuffer buffer =
     map (\<lambda>k. if k mod 9 < 3 then IntBits (ToInt32 (buffer ! k))
               else FloatVal (ToFloat (buffer ! k)))
       [0..<length buffer]"

text \<open>The texture data \<^verbatim>\<open>initBVH\<close> uploads for the tree.\<close>

definition bvh_texture :: "triangle list \<Rightarrow> node \<Rightarrow> error + cell32 list" where
  "bvh_texture tris rootNode =
     (case pack_tree tris rootNode of
        Inl err \<Rightarrow> Inl err
      | Inr bufs \<Rightarrow> Inr (maskBVHBuffer (padBuffer (bvhBuffer bufs) 3 3)))"

section \<open>The autofocus ray (\<^verbatim>\<open>shootAutoFocusRay\<close>, main.js)\<close>

definition maxT :: jsnum where
  "maxT = Num 1000000"

definition epsilon :: jsnum where
  "epsilon = Num (1 / 10 ^ 12)"

text \<open>\<open>eye\<close> and \<open>dir\<close> are the camera variables of the enclosing \<^verbatim>\<open>PathTracer\<close>.\<close>

definition rayTriangleIntersect :: "vec3 \<Rightarrow> vec3 \<Rightarrow> triangle \<Rightarrow> jsnum" where
  "rayTriangleIntersect eye dir tri =
     (case verts tri of (p0, p1, p2) \<Rightarrow>
        let e1 = Vec3_sub p1 p0;
            e2 = Vec3_sub p2 p0;
            p = Vec3_cross dir e2;
            det = Vec3_dot e1 p
        in if jlt (jneg epsilon) det \<and> jlt det epsilon then maxT
           else
             let invDet = jdiv (Num 1.0) det;
                 t = Vec3_sub eye p0;
                 u = jmul (Vec3_dot t p) invDet
             in if jlt u (Num 0) \<or> jlt (Num 1) u then maxT
                else
                  let q = Vec3_cross t e1;
                      v = jmul (Vec3_dot dir q) invDet
                  in if jlt v (Num 0) \<or> jlt (Num 1) (jadd u v) then maxT
                     else
                       let t' = jmul (Vec3_dot e2 q) invDet
                       in if jlt epsilon t' then t' else maxT)"

text \<open>\<^verbatim>\<open>processLeaf\<close>: the nearest hit among the leaf's triangles.\<close>

fun nearest :: "vec3 \<Rightarrow> vec3 \<Rightarrow> triangle option list \<Rightarrow> jsnum \<Rightarrow> error + jsnum" where
  "nearest eye dir [] res = Inr res"
| "nearest eye dir (None # rest) res = Inl TypeError"
| "nearest eye dir (Some t # rest) res =
     (let tmp = rayTriangleIntersect eye dir t
      in nearest eye dir rest (if jlt tmp res then tmp else res))"

definition processLeaf :: "vec3 \<Rightarrow> vec3 \<Rightarrow> triangle list \<Rightarrow> indices \<Rightarrow> error + jsnum" where
  "processLeaf eye dir tris idxs = nearest eye dir (getTriangles tris idxs) maxT"

definition rayBoxIntersect :: "vec3 \<Rightarrow> vec3 \<Rightarrow> bbox \<Rightarrow> jsnum" where
  "rayBoxIntersect eye dir box =
     (let invDir = Vec3_inverse dir;
          tx1 = jmul (jsub (elem3 (bb_min box) 0) (elem3 eye 0)) (elem3 invDir 0);
          tx2 = jmul (jsub (elem3 (bb_max box) 0) (elem3 eye 0)) (elem3 invDir 0);
          ty1 = jmul (jsub (elem3 (bb_min box) 1) (elem3 eye 1)) (elem3 invDir 1);
          ty2 = jmul (jsub (elem3 (bb_max box) 1) (elem3 eye 1)) (elem3 invDir 1);
          tz1 = jmul (jsub (elem3 (bb_min box) 2) (elem3 eye 2)) (elem3 invDir 2);
          tz2 = jmul (jsub (elem3 (bb_max box) 2) (elem3 eye 2)) (elem3 invDir 2);
          tmin0 = jmin tx1 tx2;
          tmax0 = jmax tx1 tx2;
          tmin1 = jmax tmin0 (jmin ty1 ty2);
          tmax1 = jmin tmax0 (jmax ty1 ty2);
          tmin = jmax tmin1 (jmin tz1 tz2);
          tmax = jmin tmax1 (jmax tz1 tz2)
      in if jge tmax tmin \<and> jge tmax (Num 0) then tmin else maxT)"

text \<open>
  \<^verbatim>\<open>closestNode\<close> returns the two children ordered by their entry distance, each as a
  reference to the node (here: which child it is) or \<^verbatim>\<open>null\<close> when the ray misses
  its box.
\<close>

datatype child = LeftChild | RightChild

definition closestNode :: "vec3 \<Rightarrow> vec3 \<Rightarrow> node \<Rightarrow> node \<Rightarrow> (child option \<times> jsnum) list" where
  "closestNode eye dir nLeft nRight =
     (let tLeft = rayBoxIntersect eye dir (node_box nLeft);
          tRight = rayBoxIntersect eye dir (node_box nRight);
          left = (if jlt tLeft maxT then Some LeftChild else None);
          right = (if jlt tRight maxT then Some RightChild else None)
      in if jlt tLeft tRight then [(left, tLeft), (right, tRight)]
         else [(right, tRight), (left, tLeft)])"

text \<open>
  \<^verbatim>\<open>findTriangles\<close>. The loop over the two elements of \<^verbatim>\<open>ord\<close> is written out;
  \<open>visited res closest\<close> is the update \<^verbatim>\<open>closest = Math.min(res, closest)\<close> after a
  recursive call, which an exception in the call skips.
\<close>

definition visited :: "error + jsnum \<Rightarrow> jsnum \<Rightarrow> error + jsnum" where
  "visited res closest = (case res of Inl err \<Rightarrow> Inl err | Inr t \<Rightarrow> Inr (jmin t closest))"

fun findTriangles :: "vec3 \<Rightarrow> vec3 \<Rightarrow> triangle list \<Rightarrow> node \<Rightarrow> jsnum \<Rightarrow> error + jsnum" where
  "findTriangles eye dir tris (Leaf box sp idxs) closest = processLeaf eye dir tris idxs"
| "findTriangles eye dir tris (Internal box sp l r) closest =
     (let ord = closestNode eye dir l r;
          visit = (\<lambda>entry closest.
            case fst entry of
              None \<Rightarrow> Inr closest
            | Some LeftChild \<Rightarrow>
                if jlt (snd entry) closest
                then visited (findTriangles eye dir tris l closest) closest
                else Inr closest
            | Some RightChild \<Rightarrow>
                if jlt (snd entry) closest
                then visited (findTriangles eye dir tris r closest) closest
                else Inr closest)
      in case visit (ord ! 0) closest of
           Inl err \<Rightarrow> Inl err
         | Inr closest1 \<Rightarrow> visit (ord ! 1) closest1)"

text \<open>
  The two things \<^verbatim>\<open>shootAutoFocusRay\<close> writes: \<^verbatim>\<open>lensFeatures\<close> and the value of the
  focal-depth input, the string \<^verbatim>\<open>dist.toFixed(3)\<close> (\<open>distance\<close> is the local \<^verbatim>\<open>dist\<close>). \<open>ToFixed n x\<close> stands for the
  string \<^verbatim>\<open>x.toFixed(n)\<close>.
\<close>

datatype fixed = ToFixed nat jsnum

record lens =
  lensFeatures :: "jsnum \<times> jsnum"
  focalDepthValue :: fixed

definition shootAutoFocusRay :: "vec3 \<Rightarrow> vec3 \<Rightarrow> triangle list \<Rightarrow> node \<Rightarrow> lens \<Rightarrow> error + lens"
  where
  "shootAutoFocusRay eye dir tris rootNode ui =
     (case findTriangles eye dir tris rootNode maxT of
        Inl err \<Rightarrow> Inl err
      | Inr distance \<Rightarrow>
          Inr \<lparr> lensFeatures = (jsub (Num 1) (jdiv (Num 1) distance), snd (lensFeatures ui)),
                focalDepthValue = ToFixed 3 distance \<rparr>)"

text \<open>
  The quantities of the M\"oller--Trumbore test, named: the determinant, the two
  barycentric coordinates and the distance along the ray.
\<close>

definition mt_det :: "vec3 \<Rightarrow> triangle \<Rightarrow> jsnum" where
  "mt_det dir tri =
     (case verts tri of (p0, p1, p2) \<Rightarrow>
        Vec3_dot (Vec3_sub p1 p0) (Vec3_cross dir (Vec3_sub p2 p0)))"

definition mt_u :: "vec3 \<Rightarrow> vec3 \<Rightarrow> triangle \<Rightarrow> jsnum" where
  "mt_u eye dir tri =
     (case verts tri of (p0, p1, p2) \<Rightarrow>
        jmul (Vec3_dot (Vec3_sub eye p0) (Vec3_cross dir (Vec3_sub p2 p0)))
          (jdiv (Num 1) (mt_det dir tri)))"

definition mt_v :: "vec3 \<Rightarrow> vec3 \<Rightarrow> triangle \<Rightarrow> jsnum" where
  "mt_v eye dir tri =
     (case verts tri of (p0, p1, p2) \<Rightarrow>
        jmul (Vec3_dot dir (Vec3_cross (Vec3_sub eye p0) (Vec3_sub p1 p0)))
          (jdiv (Num 1) (mt_det dir tri)))"

definition mt_t :: "vec3 \<Rightarrow> vec3 \<Rightarrow> triangle \<Rightarrow> jsnum" where
  "mt_t eye dir tri =
     (case verts tri of (p0, p1, p2) \<Rightarrow>
        jmul (Vec3_dot (Vec3_sub p2 p0) (Vec3_cross (Vec3_sub eye p0) (Vec3_sub p1 p0)))
          (jdiv (Num 1) (mt_det dir tri)))"

text \<open>Scenario S1 of the spec: the triangle \<open>(0,0,0), (1,0,0), (0,1,0)\<close>.\<close>

definition unit_triangle :: triangle where
  "unit_triangle =
     Triangle ((Num 0, Num 0, Num 0), (Num 1, Num 0, Num 0), (Num 0, Num 1, Num 0))"

section \<open>Material resolution (\<^verbatim>\<open>getMaterial\<close>, main.js)\<close>

text \<open>
  \<open>mtl\<close> is \<^verbatim>\<open>group.material\<close>, the record the OBJ loader read from the material
  library, and \<open>transforms\<close> the scene's entry for the prop. A property the
  object does not have reads as \<open>Undefined\<close>. The four atlas indices, which
  \<^verbatim>\<open>getMaterial\<close> obtains from the texture packer, are not part of this embedding.
\<close>

record mtl =
  mtl_ior :: jsval
  mtl_dielectric :: jsval

record transforms =
  tr_ior :: jsval
  tr_dielectric :: jsval
  tr_emittance :: jsval

record material =
  ior :: jsval
  dielectric :: jsval
  emittance :: jsval

definition getMaterial :: "transforms \<Rightarrow> mtl \<Rightarrow> material" where
  "getMaterial transforms group_material =
     \<lparr> ior = js_or (js_or (mtl_ior group_material) (tr_ior transforms)) (Number (Num 1.4)),
       dielectric =
         js_or (js_or (mtl_dielectric group_material) (tr_dielectric transforms))
           (Number (Num (- 1))),
       emittance = tr_emittance transforms \<rparr>"

section \<open>The render loop (\<^verbatim>\<open>tick\<close>, \<^verbatim>\<open>clear\<close> and the three draw passes, main.js)\<close>

text \<open>
  The content of a render target is recorded symbolically, by the call that wrote to it
  last: \<open>Blank\<close> is a texture as \<^verbatim>\<open>createTexture\<close> allocates it, \<open>Cleared\<close> one
  after \<^verbatim>\<open>gl.clear\<close>, \<open>Traced i s\<close> an accumulator after \<^verbatim>\<open>drawTracer(i)\<close> drew into it
  with the viewport scaled by \<open>s\<close>. A pass changes the target it draws into and
  nothing else.
\<close>

datatype image =
    Blank
  | Cleared
  | CameraRays real
  | Traced nat real
  | Presented nat real

datatype framebuffer = ScreenFB nat | CameraFB | DefaultFB

datatype call = DrawCamera | DrawTracer nat | DrawQuad nat | Clear | UploadOutput

record renderer =
  screen :: "image list"
  camera :: image
  canvas :: image
  bound :: framebuffer
  pingpong :: nat
  dirty :: bool
  moving :: bool
  active :: bool
  resScale :: real
  sampleOutput :: nat
  calls :: "call list"

text \<open>
  \<^verbatim>\<open>framebuffers.screen\<close> holds two framebuffers. Reading the array past its end gives
  \<^verbatim>\<open>undefined\<close>, and \<^verbatim>\<open>gl.bindFramebuffer\<close> binds the default framebuffer (the
  canvas) for a null or undefined argument.
\<close>

definition screen_framebuffer :: "nat \<Rightarrow> framebuffer" where
  "screen_framebuffer k = (if k < 2 then ScreenFB k else DefaultFB)"

definition bindFramebuffer :: "framebuffer \<Rightarrow> renderer \<Rightarrow> renderer" where
  "bindFramebuffer fb r = r\<lparr>bound := fb\<rparr>"

definition gl_clear :: "renderer \<Rightarrow> renderer" where
  "gl_clear r =
     (case bound r of
        ScreenFB k \<Rightarrow> r\<lparr>screen := (screen r)[k := Cleared]\<rparr>
      | CameraFB \<Rightarrow> r\<lparr>camera := Cleared\<rparr>
      | DefaultFB \<Rightarrow> r\<lparr>canvas := Cleared\<rparr>)"

definition drawCamera :: "renderer \<Rightarrow> renderer" where
  "drawCamera r =
     r\<lparr>bound := CameraFB, camera := CameraRays (resScale r),
       calls := calls r @ [DrawCamera]\<rparr>"

definition drawTracer :: "nat \<Rightarrow> renderer \<Rightarrow> renderer" where
  "drawTracer i r =
     r\<lparr>bound := ScreenFB (i mod 2),
       screen := (screen r)[i mod 2 := Traced i (resScale r)],
       calls := calls r @ [DrawTracer i]\<rparr>"

definition drawQuad :: "nat \<Rightarrow> renderer \<Rightarrow> renderer" where
  "drawQuad i r =
     r\<lparr>bound := DefaultFB, canvas := Presented i (resScale r),
       calls := calls r @ [DrawQuad i]\<rparr>"

text \<open>
  \<^verbatim>\<open>clear\<close> binds \<^verbatim>\<open>framebuffers.screen[pingpong + 1 % 2]\<close>. The operator \<^verbatim>\<open>%\<close> binds
  tighter than \<^verbatim>\<open>+\<close>, so the index is \<open>pingpong + (1 mod 2)\<close>.
\<close>

definition clear :: "renderer \<Rightarrow> renderer" where
  "clear r =
     (let r1 =
        (if \<not> moving r
         then gl_clear (bindFramebuffer (screen_framebuffer (pingpong r + 1 mod 2))
                (gl_clear (bindFramebuffer (screen_framebuffer 0) r)))
         else r)
      in r1\<lparr>pingpong := 0, dirty := False, calls := calls r1 @ [Clear]\<rparr>)"

datatype outcome = Uploaded | NextFrame

text \<open>
  \<open>maxSamples\<close> (the local \<^verbatim>\<open>max\<close>) is \<^verbatim>\<open>parseInt\<close> of the sample input, \<open>None\<close> for \<open>NaN\<close>; \<open>frameNumber\<close> is
  the \<^verbatim>\<open>frame=\<close> parameter, \<open>-1\<close> when absent.
\<close>

definition tick :: "int option \<Rightarrow> int \<Rightarrow> renderer \<Rightarrow> renderer \<times> outcome" where
  "tick maxSamples frameNumber r =
     (let r1 = r\<lparr>resScale := (if moving r then 0.25 else 1.0)\<rparr>;
          r2 = (case maxSamples of
                  Some m \<Rightarrow>
                    if m \<noteq> 0 \<and> int (pingpong r1) \<le> m \<and> active r1
                    then (let r' = drawTracer (pingpong r1) (drawCamera r1)
                          in r'\<lparr>sampleOutput := pingpong r', pingpong := pingpong r' + 1\<rparr>)
                    else r1
                | None \<Rightarrow> r1);
          r3 = drawQuad (pingpong r2) r2;
          r4 = (if dirty r3 then clear r3 else r3)
      in (case maxSamples of
            Some m \<Rightarrow>
              if m \<le> int (pingpong r4) \<and> 0 \<le> frameNumber
              then (r4\<lparr>calls := calls r4 @ [UploadOutput]\<rparr>, Uploaded)
              else (r4, NextFrame)
          | None \<Rightarrow> (r4, NextFrame)))"

text \<open>
  The loop: \<^verbatim>\<open>requestAnimationFrame(tick)\<close> runs \<open>tick\<close> again on the state it left,
  as long as no event handler runs in between. It stops when the upload fires. The
  first argument bounds the number of ticks; \<open>None\<close> says the upload has not fired
  within that many.
\<close>

fun run :: "nat \<Rightarrow> int option \<Rightarrow> int \<Rightarrow> renderer \<Rightarrow> renderer option" where
  "run 0 maxSamples frameNumber r = None"
| "run (Suc n) maxSamples frameNumber r =
     (case tick maxSamples frameNumber r of
        (r', Uploaded) \<Rightarrow> Some r'
      | (r', NextFrame) \<Rightarrow> run n maxSamples frameNumber r')"

text \<open>The renderer as \<^verbatim>\<open>PathTracer\<close> and \<^verbatim>\<open>initBuffers\<close> leave it before the first tick.\<close>

definition initial :: "bool \<Rightarrow> renderer" where
  "initial isFramed =
     \<lparr> screen = [Blank, Blank], camera = Blank, canvas = Blank, bound = CameraFB,
       pingpong = 0, dirty = True, moving = False, active = (\<not> isFramed),
       resScale = 1, sampleOutput = 0, calls = [] \<rparr>"

section \<open>Split selection in closed form\<close>

text \<open>
  A scan that keeps the first candidate of least cost: a candidate replaces the best
  one so far when its cost is strictly less.
\<close>

definition first_min_scan ::
  "('c \<Rightarrow> jsnum) \<Rightarrow> 'c list \<Rightarrow> jsnum \<times> 'c option \<Rightarrow> jsnum \<times> 'c option" where
  "first_min_scan cost cs st =
     foldl (\<lambda>st c. if jlt (cost c) (fst st) then (cost c, Some c) else st) st cs"

text \<open>Every cell of the three lists names a triangle.\<close>

definition indices_valid :: "triangle list \<Rightarrow> indices \<Rightarrow> bool" where
  "indices_valid tris idxs =
     (list_all (\<lambda>idx. lookup tris idx \<noteq> None) (elem3 idxs 0)
      \<and> list_all (\<lambda>idx. lookup tris idx \<noteq> None) (elem3 idxs 1)
      \<and> list_all (\<lambda>idx. lookup tris idx \<noteq> None) (elem3 idxs 2))"

text \<open>
  The boxes of the triangles of a node in the order of one axis, the union of a list of
  boxes, and the boxes the two sweeps of \<^verbatim>\<open>setSplit\<close> accumulate: \<open>bbFront i\<close> is the
  union of the boxes of triangles \<open>0..i\<close> in axis order, \<open>bbBack i\<close> that of triangles
  \<open>N-1..N-1-i\<close>.
\<close>

definition axis_boxes :: "triangle list \<Rightarrow> indices \<Rightarrow> nat \<Rightarrow> bbox list" where
  "axis_boxes tris idxs axis = map (\<lambda>idx. boundingBox (the (lookup tris idx))) (elem3 idxs axis)"

definition union_boxes :: "bbox list \<Rightarrow> bbox" where
  "union_boxes boxes = foldl (\<lambda>bb box. addBoundingBox box bb) BoundingBox boxes"

definition bbFront :: "triangle list \<Rightarrow> indices \<Rightarrow> nat \<Rightarrow> nat \<Rightarrow> bbox" where
  "bbFront tris idxs axis i = union_boxes (take (Suc i) (axis_boxes tris idxs axis))"

definition bbBack :: "triangle list \<Rightarrow> indices \<Rightarrow> nat \<Rightarrow> nat \<Rightarrow> bbox" where
  "bbBack tris idxs axis i = union_boxes (take (Suc i) (rev (axis_boxes tris idxs axis)))"

text \<open>
  The cost the code gives to the split of axis \<open>axis\<close> with \<open>k\<close> triangles on the left:
  the back box is \<open>bbBack (N - k)\<close>, the box of the last \<open>N - k + 1\<close> triangles.
\<close>

definition code_cost :: "triangle list \<Rightarrow> indices \<Rightarrow> bbox \<Rightarrow> nat \<times> nat \<Rightarrow> jsnum" where
  "code_cost tris idxs box c =
     (case c of (axis, k) \<Rightarrow>
        let n = length (elem3 idxs axis)
        in jadd
             (jadd (Num 1)
                (jmul (jdiv (getSurfaceArea (bbFront tris idxs axis (k - 1))) (getSurfaceArea box))
                   (Num (real k))))
             (jmul (jdiv (getSurfaceArea (bbBack tris idxs axis (n - k))) (getSurfaceArea box))
                (Num (real (n - k)))))"

text \<open>The pairs \<open>(axis, k)\<close> in the order in which \<^verbatim>\<open>setSplit\<close> considers them.\<close>

definition candidates :: "indices \<Rightarrow> (nat \<times> nat) list" where
  "candidates idxs =
     concat (map (\<lambda>axis. map (\<lambda>i. (axis, Suc i)) [0..<length (elem3 idxs axis)]) [0, 1, 2])"

text \<open>Iteration order: axis 0 to 2, and \<open>k\<close> from low to high on an axis.\<close>

definition lex_before :: "nat \<times> nat \<Rightarrow> nat \<times> nat \<Rightarrow> bool" where
  "lex_before c c' = (fst c < fst c' \<or> (fst c = fst c' \<and> snd c < snd c'))"

text \<open>
  The split selection as the spec words it: the cost
  \<open>C(a,k) = 1 + (SA(bbFront[k-1])/SA(parent)) k + (SA(bbBack[N-1-k])/SA(parent)) (N-k)\<close>,
  the split counts \<open>k\<close> in \<open>1..N-1\<close> for each axis, and the first pair of least cost in
  iteration order.
\<close>

definition spec_cost :: "triangle list \<Rightarrow> indices \<Rightarrow> bbox \<Rightarrow> nat \<times> nat \<Rightarrow> jsnum" where
  "spec_cost tris idxs box c =
     (case c of (axis, k) \<Rightarrow>
        let n = length (elem3 idxs axis)
        in jadd
             (jadd (Num 1)
                (jmul (jdiv (getSurfaceArea (bbFront tris idxs axis (k - 1))) (getSurfaceArea box))
                   (Num (real k))))
             (jmul (jdiv (getSurfaceArea (bbBack tris idxs axis (n - 1 - k))) (getSurfaceArea box))
                (Num (real (n - k)))))"

definition spec_candidates :: "indices \<Rightarrow> (nat \<times> nat) list" where
  "spec_candidates idxs =
     concat (map (\<lambda>axis. map (\<lambda>k. (axis, k)) [1..<length (elem3 idxs axis)]) [0, 1, 2])"

definition spec_setSplit :: "triangle list \<Rightarrow> indices \<Rightarrow> bbox \<Rightarrow> jsnum \<times> (nat \<times> nat) option" where
  "spec_setSplit tris idxs box =
     first_min_scan (spec_cost tris idxs box) (spec_candidates idxs) (PInf, None)"

text \<open>The three sorted index lists the constructor of \<^verbatim>\<open>BVH\<close> starts from.\<close>

definition initial_indices :: "triangle list \<Rightarrow> indices" where
  "initial_indices triangles =
     (map Some (sortIndices triangles [0..<length triangles] 0),
      map Some (sortIndices triangles [0..<length triangles] 1),
      map Some (sortIndices triangles [0..<length triangles] 2))"

text \<open>
  Two triangles in the plane \<open>z = 0\<close>, a small one at the right and a large one at
  the top; every surface area and quotient below is a dyadic number.
\<close>

definition small_triangle :: triangle where
  "small_triangle =
     Triangle ((Num 15, Num 0, Num 0), (Num 16, Num 0, Num 0), (Num 15, Num 1, Num 0))"

definition large_triangle :: triangle where
  "large_triangle =
     Triangle ((Num 0, Num 12, Num 0), (Num 4, Num 12, Num 0), (Num 0, Num 16, Num 0))"

section \<open>The serialized tree in closed form\<close>

text \<open>The number of nodes of a tree, and its nodes in depth-first preorder.\<close>

fun count_nodes :: "node \<Rightarrow> nat" where
  "count_nodes (Leaf box sp idxs) = 1"
| "count_nodes (Internal box sp l r) = 1 + count_nodes l + count_nodes r"

fun preorder :: "node \<Rightarrow> node list" where
  "preorder (Leaf box sp idxs) = [Leaf box sp idxs]"
| "preorder (Internal box sp l r) = Internal box sp l r # preorder l @ preorder r"

text \<open>
  The serialization in closed form: the elements for the subtree \<open>t\<close> when its root has
  ordinal \<open>p\<close>.
\<close>

fun entries_from :: "node \<Rightarrow> int \<Rightarrow> entry list" where
  "entries_from (Leaf box sp idxs) p = [\<lparr> e_node = Leaf box sp idxs, e_left = None, e_right = None \<rparr>]"
| "entries_from (Internal box sp l r) p =
     \<lparr> e_node = Internal box sp l r, e_left = Some (p + 1),
       e_right = Some (p + 1 + int (count_nodes l)) \<rparr>
     # entries_from l (p + 1) @ entries_from r (p + 1 + int (count_nodes l))"

text \<open>The number of triangles a node contributes to \<^verbatim>\<open>trianglesBuffer\<close>.\<close>

fun leaf_count :: "node \<Rightarrow> nat" where
  "leaf_count (Leaf box sp idxs) = length (elem3 idxs 0)"
| "leaf_count (Internal box sp l r) = 0"

fun is_leaf :: "node \<Rightarrow> bool" where
  "is_leaf (Leaf box sp idxs) = True"
| "is_leaf (Internal box sp l r) = False"

text \<open>
  The nine cells of a node in \<^verbatim>\<open>bvhBuffer\<close>, for a node whose triangles start at
  triangle number \<open>base\<close>, and the cells of a list of elements.
\<close>

definition node_record :: "entry \<Rightarrow> nat \<Rightarrow> jsnum option list" where
  "node_record e base =
     [ordinal_cell (e_left e), ordinal_cell (e_right e),
      Some (if is_leaf (e_node e) then Num (real base) else Num (- 1))]
     @ map Some (vec3_cells (bb_min (node_box (e_node e))))
     @ map Some (vec3_cells (bb_max (node_box (e_node e))))"

fun records :: "entry list \<Rightarrow> nat \<Rightarrow> jsnum option list" where
  "records [] base = []"
| "records (e # es) base = node_record e base @ records es (base + leaf_count (e_node e))"

text \<open>The triangles of a leaf, in the order of \<^verbatim>\<open>indices[0]\<close>.\<close>

fun node_triangles :: "triangle list \<Rightarrow> node \<Rightarrow> triangle list" where
  "node_triangles tris (Leaf box sp idxs) = map the (getTriangles tris idxs)"
| "node_triangles tris (Internal box sp l r) = []"

text \<open>Every index of every leaf (on axis 0) names a triangle.\<close>

fun leaves_valid :: "triangle list \<Rightarrow> node \<Rightarrow> bool" where
  "leaves_valid tris (Leaf box sp idxs) = list_all (\<lambda>idx. lookup tris idx \<noteq> None) (elem3 idxs 0)"
| "leaves_valid tris (Internal box sp l r) = (leaves_valid tris l \<and> leaves_valid tris r)"

text \<open>
  The trees the builder returns for the unit triangle (leaf size 4) and for two copies
  of it (leaf size 1).
\<close>

definition single_leaf :: node where
  "single_leaf =
     Leaf \<lparr> bb_min = (Num 0, Num 0, Num 0), bb_max = (Num 1, Num 1, Num 0) \<rparr> (Some (0, 1))
       ([Some 0], [Some 0], [Some 0])"

definition two_leaves :: node where
  "two_leaves =
     Internal \<lparr> bb_min = (Num 0, Num 0, Num 0), bb_max = (Num 1, Num 1, Num 0) \<rparr> (Some (0, 1))
       (Leaf \<lparr> bb_min = (Num 0, Num 0, Num 0), bb_max = (Num 1, Num 1, Num 0) \<rparr> (Some (0, 1))
          ([Some 0], [Some 0], [Some 0]))
       (Leaf \<lparr> bb_min = (Num 0, Num 0, Num 0), bb_max = (Num 1, Num 1, Num 0) \<rparr> (Some (0, 1))
          ([Some 1], [Some 1], [Some 1]))"

text \<open>
  The tree the builder returns for the large and the small triangle, in this order, with
  leaf size 1: the left leaf holds triangle 1, the right leaf triangle 0.
\<close>

definition small_first_tree :: node where
  "small_first_tree =
     Internal \<lparr> bb_min = (Num 0, Num 0, Num 0), bb_max = (Num 16, Num 16, Num 0) \<rparr> (Some (1, 1))
       (Leaf \<lparr> bb_min = (Num 15, Num 0, Num 0), bb_max = (Num 16, Num 1, Num 0) \<rparr> (Some (0, 1))
          ([Some 1], [Some 1], [Some 1]))
       (Leaf \<lparr> bb_min = (Num 0, Num 12, Num 0), bb_max = (Num 4, Num 16, Num 0) \<rparr> (Some (0, 1))
          ([Some 0], [Some 0], [Some 0]))"

text \<open>The number of triangles in the leaves that precede ordinal \<open>p\<close>.\<close>

definition base_index_of :: "node \<Rightarrow> nat \<Rightarrow> nat" where
  "base_index_of t p = sum_list (map leaf_count (take p (preorder t)))"

text \<open>The triangles of all leaves of a tree, in visit order.\<close>

definition tree_triangles :: "triangle list \<Rightarrow> node \<Rightarrow> triangle list" where
  "tree_triangles tris t = concat (map (node_triangles tris) (preorder t))"

text \<open>
  What a traversal can return for a set of triangles: the sentinel, or the distance
  \<^verbatim>\<open>rayTriangleIntersect\<close> gives for one of them, when that is below the sentinel.
\<close>

definition hit_values :: "vec3 \<Rightarrow> vec3 \<Rightarrow> triangle set \<Rightarrow> jsnum set" where
  "hit_values eye dir T = {maxT} \<union> {d. jlt d maxT \<and> (\<exists>tri\<in>T. d = rayTriangleIntersect eye dir tri)}"

section \<open>The recursion of the builder in closed form\<close>

text \<open>
  The index lists the builder works on: the list of axis 0 names existing triangles without
  repetition, and the lists of the other two axes are permutations of it.
\<close>

definition wf_indices :: "triangle list \<Rightarrow> indices \<Rightarrow> bool" where
  "wf_indices tris idxs =
     (distinct (elem3 idxs 0)
      \<and> list_all (\<lambda>idx. lookup tris idx \<noteq> None) (elem3 idxs 0)
      \<and> mset (elem3 idxs 1) = mset (elem3 idxs 0)
      \<and> mset (elem3 idxs 2) = mset (elem3 idxs 0))"

text \<open>
  What \<^verbatim>\<open>_constructCachedIndexList\<close> computes for axis \<open>b\<close> when the split is \<open>(a, k)\<close>: the
  elements of the parent's list of axis \<open>b\<close> that are, respectively are not, among the first
  \<open>k\<close> of axis \<open>a\<close>, in the parent's order.
\<close>

definition left_part :: "indices \<Rightarrow> nat \<Rightarrow> nat \<Rightarrow> nat \<Rightarrow> slot list" where
  "left_part idxs a k b = filter (\<lambda>x. x \<in> set (take k (elem3 idxs a))) (elem3 idxs b)"

definition right_part :: "indices \<Rightarrow> nat \<Rightarrow> nat \<Rightarrow> nat \<Rightarrow> slot list" where
  "right_part idxs a k b = filter (\<lambda>x. x \<notin> set (take k (elem3 idxs a))) (elem3 idxs b)"

text \<open>
  The index lists \<^verbatim>\<open>buildTree\<close> is called with, started at \<open>start\<close>: the start itself and,
  whenever a call is not answered with a leaf and its lists are split, the two halves.
\<close>

inductive builder_call :: "triangle list \<Rightarrow> nat \<Rightarrow> indices \<Rightarrow> indices \<Rightarrow> bool"
  for tris :: "triangle list" and maxTriangles :: nat and start :: indices
  where
    call_top: "builder_call tris maxTriangles start start"
  | call_left:
      "builder_call tris maxTriangles start idxs \<Longrightarrow> new_Node tris idxs = Inr (box, sp) \<Longrightarrow>
       \<not> length (elem3 idxs (case sp of None \<Rightarrow> 0 | Some (splitAxis, splitIndex) \<Rightarrow> splitAxis))
           \<le> maxTriangles \<Longrightarrow>
       constructCachedIndexList idxs sp = Inr (leftIndices, rightIndices) \<Longrightarrow>
       builder_call tris maxTriangles start leftIndices"
  | call_right:
      "builder_call tris maxTriangles start idxs \<Longrightarrow> new_Node tris idxs = Inr (box, sp) \<Longrightarrow>
       \<not> length (elem3 idxs (case sp of None \<Rightarrow> 0 | Some (splitAxis, splitIndex) \<Rightarrow> splitAxis))
           \<le> maxTriangles \<Longrightarrow>
       constructCachedIndexList idxs sp = Inr (leftIndices, rightIndices) \<Longrightarrow>
       builder_call tris maxTriangles start rightIndices"

code_pred builder_call .

text \<open>The triangle slots of the leaves of a tree, from left to right.\<close>

fun tree_slots :: "node \<Rightarrow> slot list" where
  "tree_slots (Leaf box sp idxs) = elem3 idxs 0"
| "tree_slots (Internal box sp l r) = tree_slots l @ tree_slots r"

text \<open>
  A triangle whose three vertices lie on the x axis, as a face of a mesh file can have
  them, and its bounding box, which has no extent on the other two axes.
\<close>

definition segment_triangle :: triangle where
  "segment_triangle = Triangle ((Num 0, Num 0, Num 0), (Num 1, Num 0, Num 0), (Num 2, Num 0, Num 0))"

definition segment_box :: bbox where
  "segment_box = \<lparr> bb_min = (Num 0, Num 0, Num 0), bb_max = (Num 2, Num 0, Num 0) \<rparr>"

section \<open>The autofocus traversal in closed form\<close>

text \<open>
  The triangle slots of the leaves that lie behind boxes the ray enters before distance
  \<open>d\<close>: a child of an internal node counts when \<^verbatim>\<open>rayBoxIntersect\<close> gives its box an
  entry distance below \<open>d\<close>. The box of the root is not tested.
\<close>

fun reached :: "vec3 \<Rightarrow> vec3 \<Rightarrow> jsnum \<Rightarrow> node \<Rightarrow> slot list" where
  "reached eye dir d (Leaf box sp idxs) = elem3 idxs 0"
| "reached eye dir d (Internal box sp l r) =
     (if jlt (rayBoxIntersect eye dir (node_box l)) d then reached eye dir d l else [])
     @ (if jlt (rayBoxIntersect eye dir (node_box r)) d then reached eye dir d r else [])"

text \<open>Every slot of the list names a triangle, and the ray hits none of them before \<open>d\<close>.\<close>

definition none_nearer :: "vec3 \<Rightarrow> vec3 \<Rightarrow> triangle list \<Rightarrow> jsnum \<Rightarrow> slot list \<Rightarrow> bool" where
  "none_nearer eye dir tris d slots =
     (\<forall>s\<in>set slots. \<exists>i. s = Some i \<and> i < length tris
        \<and> \<not> jlt (rayTriangleIntersect eye dir (tris ! i)) d)"

text \<open>
  A triangle that rises from the plane \<open>z = 0\<close> to \<open>z = 1\<close>, and the tree the builder
  returns for the unit triangle and this one with leaf size 1.
\<close>

definition ramp_triangle :: triangle where
  "ramp_triangle = Triangle ((Num 0, Num 0, Num 0), (Num 1, Num 0, Num 0), (Num 0, Num 1, Num 1))"

definition ramp_tree :: node where
  "ramp_tree =
     Internal \<lparr> bb_min = (Num 0, Num 0, Num 0), bb_max = (Num 1, Num 1, Num 1) \<rparr> (Some (0, 1))
       (Leaf \<lparr> bb_min = (Num 0, Num 0, Num 0), bb_max = (Num 1, Num 1, Num 0) \<rparr> (Some (0, 1))
          ([Some 0], [Some 0], [Some 0]))
       (Leaf \<lparr> bb_min = (Num 0, Num 0, Num 0), bb_max = (Num 1, Num 1, Num 1) \<rparr> (Some (0, 1))
          ([Some 1], [Some 1], [Some 1]))"

section \<open>Scenarios of the render loop\<close>

text \<open>The three calls of a tick that takes sample \<open>i\<close>.\<close>

definition sample_calls :: "nat \<Rightarrow> call list" where
  "sample_calls i = [DrawCamera, DrawTracer i, DrawQuad (Suc i)]"

text \<open>
  The renderer after three ticks from \<open>initial False\<close> with a budget of five samples
  in interactive mode (\<open>frameNumber = -1\<close>): samples 0 and 1 are accumulated.
\<close>

definition after_three_ticks :: renderer where
  "after_three_ticks =
     \<lparr> screen = [Traced 0 1, Traced 1 1], camera = CameraRays 1, canvas = Presented 2 1,
       bound = DefaultFB, pingpong = 2, dirty = False, moving = False, active = True,
       resScale = 1, sampleOutput = 1,
       calls = [DrawCamera, DrawTracer 0, DrawQuad 1, Clear] @ sample_calls 0 @ sample_calls 1 \<rparr>"

chapter \<open>Properties\<close>

section \<open>Numbers\<close>

lemma jle_not_jlt: "jle a b \<Longrightarrow> \<not> jlt b a"
  by (cases a; cases b) auto

lemma barycentric_u_le_1:
  "jle (Num 0) u \<Longrightarrow> jle (Num 0) v \<Longrightarrow> jle (jadd u v) (Num 1) \<Longrightarrow> \<not> jlt (Num 1) u"
  by (cases u; cases v) auto

lemma jlt_not_NaN: "jlt a b \<Longrightarrow> a \<noteq> NaN \<and> b \<noteq> NaN"
  by (cases a; cases b) auto

lemma jlt_trans: "jlt a b \<Longrightarrow> jlt b c \<Longrightarrow> jlt a c"
  by (cases a; cases b; cases c) auto

lemma jlt_jle_trans: "jlt a b \<Longrightarrow> jle b c \<Longrightarrow> jlt a c"
  by (cases a; cases b; cases c) auto

lemma jle_trans: "jle a b \<Longrightarrow> jle b c \<Longrightarrow> jle a c"
  by (cases a; cases b; cases c) auto

lemma jle_refl: "a \<noteq> NaN \<Longrightarrow> jle a a"
  by (cases a) auto

lemma jlt_imp_jle: "jlt a b \<Longrightarrow> jle a b"
  by (cases a; cases b) auto

lemma jle_not_NaN: "jle a b \<Longrightarrow> a \<noteq> NaN \<and> b \<noteq> NaN"
  by (cases a; cases b) auto

lemma jmin_le:
  assumes "a \<noteq> NaN" "b \<noteq> NaN"
  shows "jle (jmin a b) a" "jle (jmin a b) b" "jmin a b \<noteq> NaN"
  using assms by (cases a; cases b; auto simp: jmin_def)+

lemma jmin_absorb: "jle a b \<Longrightarrow> jmin a b = a"
  by (cases a; cases b) (auto simp: jmin_def)

section \<open>Material resolution\<close>

lemma truthy_js_or_default: "truthy c \<Longrightarrow> truthy (js_or (js_or a b) c)"
  by (simp add: js_or_def)

lemma truthy_not_zero: "truthy v \<Longrightarrow> v \<noteq> Number (Num 0)"
  by auto

text \<open>
  C10, as stated, fails: a material that gives \<open>ior = 0\<close> (and \<open>dielectric = 0\<close>) on a
  prop whose transforms give 1.5 (and 1) resolves to 1.5 (and 1), not to the defaults.
\<close>

theorem zero_ior_counterexample:
  "mtl_ior \<lparr>mtl_ior = Number (Num 0), mtl_dielectric = Number (Num 0)\<rparr> = Number (Num 0)
   \<and> ior (getMaterial
        \<lparr>tr_ior = Number (Num 1.5), tr_dielectric = Number (Num 1), tr_emittance = Undefined\<rparr>
        \<lparr>mtl_ior = Number (Num 0), mtl_dielectric = Number (Num 0)\<rparr>) = Number (Num 1.5)
   \<and> Number (Num 1.5) \<noteq> Number (Num 1.4)
   \<and> dielectric (getMaterial
        \<lparr>tr_ior = Number (Num 1.5), tr_dielectric = Number (Num 1), tr_emittance = Undefined\<rparr>
        \<lparr>mtl_ior = Number (Num 0), mtl_dielectric = Number (Num 0)\<rparr>) = Number (Num 1)
   \<and> Number (Num 1) \<noteq> Number (Num (- 1))"
  by (simp add: getMaterial_def js_or_def)

text \<open>
  C10 (amended): the chains of \<open>getMaterial\<close> select by truthiness. An \<open>ior\<close> of 0, from
  the material or from the transforms, is treated exactly as an absent one: the chain
  moves on to the next source. When each of the two sources either lacks \<open>ior\<close> or
  gives 0, the resolved \<open>ior\<close> is the default 1.4. The same holds of \<open>dielectric\<close> with
  the default \<open>-1\<close>. The resolved \<open>ior\<close> and \<open>dielectric\<close> are never 0.
\<close>

theorem getMaterial_truthiness:
  "ior (getMaterial t m) \<noteq> Number (Num 0)
   \<and> dielectric (getMaterial t m) \<noteq> Number (Num 0)
   \<and> (mtl_ior m = Number (Num 0) \<longrightarrow>
        ior (getMaterial t m) = ior (getMaterial t (m\<lparr>mtl_ior := Undefined\<rparr>)))
   \<and> (tr_ior t = Number (Num 0) \<longrightarrow>
        ior (getMaterial t m) = ior (getMaterial (t\<lparr>tr_ior := Undefined\<rparr>) m))
   \<and> (mtl_ior m \<in> {Undefined, Number (Num 0)} \<and> tr_ior t \<in> {Undefined, Number (Num 0)} \<longrightarrow>
        ior (getMaterial t m) = Number (Num 1.4))
   \<and> (mtl_dielectric m = Number (Num 0) \<longrightarrow>
        dielectric (getMaterial t m) = dielectric (getMaterial t (m\<lparr>mtl_dielectric := Undefined\<rparr>)))
   \<and> (tr_dielectric t = Number (Num 0) \<longrightarrow>
        dielectric (getMaterial t m) = dielectric (getMaterial (t\<lparr>tr_dielectric := Undefined\<rparr>) m))
   \<and> (mtl_dielectric m \<in> {Undefined, Number (Num 0)}
        \<and> tr_dielectric t \<in> {Undefined, Number (Num 0)} \<longrightarrow>
        dielectric (getMaterial t m) = Number (Num (- 1)))"
proof -
  have "truthy (ior (getMaterial t m))"
    unfolding getMaterial_def using truthy_js_or_default [of "Number (Num 1.4)"] by simp
  then have a: "ior (getMaterial t m) \<noteq> Number (Num 0)"
    by (rule truthy_not_zero)
  have "truthy (dielectric (getMaterial t m))"
    unfolding getMaterial_def using truthy_js_or_default [of "Number (Num (- 1))"] by simp
  then have b: "dielectric (getMaterial t m) \<noteq> Number (Num 0)"
    by (rule truthy_not_zero)
  show ?thesis
    using a b by (auto simp: getMaterial_def js_or_def)
qed

theorem getMaterial_truthiness_witness:
  "mtl_ior \<lparr>mtl_ior = Number (Num 0), mtl_dielectric = Number (Num 0)\<rparr> = Number (Num 0)
   \<and> tr_ior \<lparr>tr_ior = Number (Num 0), tr_dielectric = Undefined, tr_emittance = Undefined\<rparr>
       = Number (Num 0)
   \<and> ior (getMaterial
        \<lparr>tr_ior = Number (Num 0), tr_dielectric = Undefined, tr_emittance = Undefined\<rparr>
        \<lparr>mtl_ior = Number (Num 0), mtl_dielectric = Number (Num 0)\<rparr>) = Number (Num 1.4)
   \<and> dielectric (getMaterial
        \<lparr>tr_ior = Number (Num 0), tr_dielectric = Undefined, tr_emittance = Undefined\<rparr>
        \<lparr>mtl_ior = Number (Num 0), mtl_dielectric = Number (Num 0)\<rparr>) = Number (Num (- 1))"
proof -
  let ?t = "\<lparr>tr_ior = Number (Num 0), tr_dielectric = Undefined, tr_emittance = Undefined\<rparr>"
  let ?m = "\<lparr>mtl_ior = Number (Num 0), mtl_dielectric = Number (Num 0)\<rparr>"
  have h: "mtl_ior ?m \<in> {Undefined, Number (Num 0)} \<and> tr_ior ?t \<in> {Undefined, Number (Num 0)}"
    "mtl_dielectric ?m \<in> {Undefined, Number (Num 0)}
      \<and> tr_dielectric ?t \<in> {Undefined, Number (Num 0)}"
    by simp_all
  have "ior (getMaterial ?t ?m) = Number (Num 1.4)"
    "dielectric (getMaterial ?t ?m) = Number (Num (- 1))"
    using h getMaterial_truthiness [of ?t ?m] by blast+
  then show ?thesis
    by simp
qed

section \<open>The render loop\<close>

lemmas render_defs =
  tick_def drawCamera_def drawTracer_def drawQuad_def clear_def gl_clear_def
  bindFramebuffer_def screen_framebuffer_def Let_def

lemma after_three_ticks_reached:
  "fst (tick (Some 5) (- 1) (fst (tick (Some 5) (- 1) (fst (tick (Some 5) (- 1)
     (initial False)))))) = after_three_ticks"
  by (simp add: initial_def after_three_ticks_def sample_calls_def render_defs)

text \<open>
  C1: the code does not clear both accumulators. After three ticks the user turns the
  mouse wheel (\<open>dirty := True\<close>, \<open>moving\<close> stays false). The next tick takes sample 2,
  so \<open>pingpong = 3\<close> when \<open>clear\<close> runs: it clears accumulator 0, then binds
  \<^verbatim>\<open>framebuffers.screen[4]\<close>, which is undefined, and so clears the canvas.
  Accumulator 1 still holds sample 1.
\<close>

theorem clear_skips_second_accumulator:
  "screen (fst (tick (Some 5) (- 1) (after_three_ticks\<lparr>dirty := True\<rparr>))) = [Cleared, Traced 1 1]
   \<and> canvas (fst (tick (Some 5) (- 1) (after_three_ticks\<lparr>dirty := True\<rparr>))) = Cleared
   \<and> pingpong (fst (tick (Some 5) (- 1) (after_three_ticks\<lparr>dirty := True\<rparr>))) = 0
   \<and> dirty (fst (tick (Some 5) (- 1) (after_three_ticks\<lparr>dirty := True\<rparr>))) = False
   \<and> moving (after_three_ticks\<lparr>dirty := True\<rparr>) = False"
  by (simp add: after_three_ticks_def sample_calls_def render_defs)

text \<open>What \<open>clear\<close> does for each value of \<open>pingpong\<close>, when not moving.\<close>

lemma clear_not_moving:
  "\<not> moving r \<Longrightarrow> length (screen r) = 2 \<Longrightarrow>
   screen (clear r) = (if pingpong r = 0 then [Cleared, Cleared] else [Cleared, screen r ! 1])
   \<and> canvas (clear r) = (if pingpong r = 0 then canvas r else Cleared)
   \<and> pingpong (clear r) = 0 \<and> \<not> dirty (clear r)"
  by (cases "screen r"; cases "tl (screen r)") (auto simp: render_defs)

lemma tick_sample:
  assumes "int (pingpong r) < m" "\<not> dirty r" "active r"
  shows "pingpong (fst (tick (Some m) f r)) = Suc (pingpong r)"
    and "\<not> dirty (fst (tick (Some m) f r))"
    and "active (fst (tick (Some m) f r))"
    and "calls (fst (tick (Some m) f r)) =
           calls r @ sample_calls (pingpong r)
             @ (if m \<le> int (Suc (pingpong r)) \<and> 0 \<le> f then [UploadOutput] else [])"
    and "snd (tick (Some m) f r) =
           (if m \<le> int (Suc (pingpong r)) \<and> 0 \<le> f then Uploaded else NextFrame)"
  using assms by (auto simp add: render_defs sample_calls_def)

text \<open>
  C4, as stated, fails: from the initial state with a budget of 5 and \<open>frame = 0\<close> the
  upload fires in the sixth tick (the first tick's sample is discarded by the initial
  clear), and \<open>pingpong\<close> is then 5, not 6.
\<close>

theorem upload_at_max_counterexample:
  "map_option pingpong (run 6 (Some 5) 0 (initial False)) = Some 5
   \<and> map_option calls (run 6 (Some 5) 0 (initial False)) =
       Some ([DrawCamera, DrawTracer 0, DrawQuad 1, Clear] @ sample_calls 0 @ sample_calls 1
         @ sample_calls 2 @ sample_calls 3 @ sample_calls 4 @ [UploadOutput])
   \<and> run 5 (Some 5) 0 (initial False) = None"
  by (simp add: eval_nat_numeral initial_def sample_calls_def render_defs)

text \<open>
  C4 (amended): with a sample budget \<open>m\<close>, \<open>frame \<ge> 0\<close>, \<open>active\<close> and no invalidation
  (\<open>dirty\<close> is false and no handler runs between ticks), starting with
  \<open>pingpong < m\<close>, every tick runs one camera pass, one tracer pass for the current
  \<open>pingpong\<close> and the present pass, then increments \<open>pingpong\<close>; the upload fires in the
  tick that makes \<open>pingpong\<close> equal to \<open>m\<close>, and in no earlier tick. When the upload
  fires \<open>pingpong\<close> is exactly \<open>m\<close>.
\<close>

theorem run_uploads_at_max:
  assumes "0 \<le> frameNumber"
  shows "pingpong r + k = m \<Longrightarrow> 0 < k \<Longrightarrow> \<not> dirty r \<Longrightarrow> active r \<Longrightarrow>
    (\<exists>r'. run k (Some (int m)) frameNumber r = Some r' \<and> pingpong r' = m
       \<and> calls r' = calls r @ concat (map sample_calls [pingpong r..<m]) @ [UploadOutput])
    \<and> (\<forall>j<k. run j (Some (int m)) frameNumber r = None)"
proof (induction k arbitrary: r)
  case 0
  then show ?case by simp
next
  case (Suc k)
  let ?t = "tick (Some (int m)) frameNumber r"
  have lt: "int (pingpong r) < int m"
    using Suc.prems by simp
  note tp = tick_sample [OF lt Suc.prems(3) Suc.prems(4), of frameNumber]
  show ?case
  proof (cases "k = 0")
    case True
    then have m: "m = Suc (pingpong r)"
      using Suc.prems by simp
    have out: "snd ?t = Uploaded"
      using tp(5) m assms by simp
    have "run (Suc k) (Some (int m)) frameNumber r = Some (fst ?t)"
      using out by (simp add: case_prod_beta)
    moreover have "calls (fst ?t) =
        calls r @ concat (map sample_calls [pingpong r..<m]) @ [UploadOutput]"
      using tp(4) m assms by simp
    moreover have "\<forall>j<Suc k. run j (Some (int m)) frameNumber r = None"
      using True by simp
    ultimately show ?thesis
      using tp(1) m by simp
  next
    case False
    then have k: "0 < k"
      by simp
    have m: "Suc (pingpong r) < m" "pingpong r < m"
      using Suc.prems k by simp_all
    have out: "snd ?t = NextFrame"
      using tp(5) m by simp
    have step: "run (Suc j) (Some (int m)) frameNumber r = run j (Some (int m)) frameNumber (fst ?t)"
      for j
      using out by (simp add: case_prod_beta)
    have pk: "pingpong (fst ?t) + k = m"
      using tp(1) Suc.prems by simp
    from Suc.IH [OF pk k tp(2) tp(3)]
    obtain r' where r': "run k (Some (int m)) frameNumber (fst ?t) = Some r'" "pingpong r' = m"
      "calls r' = calls (fst ?t) @ concat (map sample_calls [pingpong (fst ?t)..<m]) @ [UploadOutput]"
      and none: "\<forall>j<k. run j (Some (int m)) frameNumber (fst ?t) = None"
      by blast
    have c: "calls (fst ?t) = calls r @ sample_calls (pingpong r)"
      using tp(4) m by simp
    have "[pingpong r..<m] = pingpong r # [Suc (pingpong r)..<m]"
      using m by (simp add: upt_conv_Cons)
    then have "calls r' = calls r @ concat (map sample_calls [pingpong r..<m]) @ [UploadOutput]"
      using r'(3) c tp(1) by simp
    moreover have "\<forall>j<Suc k. run j (Some (int m)) frameNumber r = None"
    proof (intro allI impI)
      fix j
      assume "j < Suc k"
      then show "run j (Some (int m)) frameNumber r = None"
        using none step by (cases j) auto
    qed
    ultimately show ?thesis
      using r' step by simp
  qed
qed

theorem run_uploads_at_max_witness:
  "(0::int) \<le> 0 \<and> pingpong after_three_ticks + 3 = 5 \<and> (0::nat) < 3
   \<and> \<not> dirty after_three_ticks \<and> active after_three_ticks
   \<and> (\<exists>r'. run 3 (Some (int 5)) 0 after_three_ticks = Some r' \<and> pingpong r' = 5
        \<and> calls r' = calls after_three_ticks
            @ concat (map sample_calls [pingpong after_three_ticks..<5]) @ [UploadOutput])"
proof -
  have h: "(0::int) \<le> 0" "pingpong after_three_ticks + 3 = 5" "(0::nat) < 3"
    "\<not> dirty after_three_ticks" "active after_three_ticks"
    by (simp_all add: after_three_ticks_def)
  show ?thesis
    using h run_uploads_at_max [OF h] by blast
qed

section \<open>Split selection\<close>

lemma jlt_irrefl [simp]: "\<not> jlt a a"
  by (cases a) simp_all

lemma jle_jlt_trans: "jle a b \<Longrightarrow> jlt b c \<Longrightarrow> jlt a c"
  by (cases a; cases b; cases c) auto

lemma first_min_scan_snoc:
  "first_min_scan cost (cs @ [c]) st =
     (let st1 = first_min_scan cost cs st
      in if jlt (cost c) (fst st1) then (cost c, Some c) else st1)"
  by (simp add: first_min_scan_def Let_def)

lemma first_min_scan_result:
  "first_min_scan cost cs (b, s) = (b', s') \<Longrightarrow> b \<noteq> NaN \<Longrightarrow>
   b' \<noteq> NaN
   \<and> (\<forall>i<length cs. \<not> jlt (cost (cs ! i)) b')
   \<and> ((b' = b \<and> s' = s)
       \<or> (\<exists>j<length cs. s' = Some (cs ! j) \<and> b' = cost (cs ! j) \<and> jlt b' b
            \<and> (\<forall>i<j. \<not> jle (cost (cs ! i)) b')))"
proof (induction cs arbitrary: b' s' rule: rev_induct)
  case Nil
  then show ?case by (simp add: first_min_scan_def)
next
  case (snoc c cs)
  obtain b1 s1 where st1: "first_min_scan cost cs (b, s) = (b1, s1)"
    by (cases "first_min_scan cost cs (b, s)")
  from snoc.IH [OF st1 snoc.prems(2)]
  have nn: "b1 \<noteq> NaN"
    and lb: "\<forall>i<length cs. \<not> jlt (cost (cs ! i)) b1"
    and sel: "(b1 = b \<and> s1 = s)
       \<or> (\<exists>j<length cs. s1 = Some (cs ! j) \<and> b1 = cost (cs ! j) \<and> jlt b1 b
            \<and> (\<forall>i<j. \<not> jle (cost (cs ! i)) b1))"
    by blast+
  have le_b: "b1 = b \<or> jlt b1 b"
    using sel by blast
  show ?case
  proof (cases "jlt (cost c) b1")
    case True
    then have res: "b' = cost c" "s' = Some c"
      using snoc.prems(1) st1 by (simp_all add: first_min_scan_snoc)
    have 1: "b' \<noteq> NaN"
      using True res jlt_not_NaN [of "cost c" b1] by simp
    have 2: "\<not> jlt (cost ((cs @ [c]) ! i)) b'" if "i < length (cs @ [c])" for i
    proof (cases "i < length cs")
      case True
      with lb have "\<not> jlt (cost (cs ! i)) b1" by blast
      then have "\<not> jlt (cost (cs ! i)) b'"
        using \<open>jlt (cost c) b1\<close> res jlt_trans by blast
      then show ?thesis using True by (simp add: nth_append)
    next
      case False
      then have "i = length cs" using that by simp
      then show ?thesis using res by simp
    qed
    have 3: "jlt b' b"
      using True res le_b jlt_trans by blast
    have 4: "\<not> jle (cost ((cs @ [c]) ! i)) b'" if "i < length cs" for i
    proof
      assume "jle (cost ((cs @ [c]) ! i)) b'"
      then have "jle (cost (cs ! i)) (cost c)"
        using that res by (simp add: nth_append)
      then have "jlt (cost (cs ! i)) b1"
        using True jle_jlt_trans by blast
      then show False using lb that by blast
    qed
    have "\<exists>j<length (cs @ [c]). s' = Some ((cs @ [c]) ! j) \<and> b' = cost ((cs @ [c]) ! j) \<and> jlt b' b
            \<and> (\<forall>i<j. \<not> jle (cost ((cs @ [c]) ! i)) b')"
      using res 3 4 by (intro exI [of _ "length cs"]) simp
    then show ?thesis using 1 2 by blast
  next
    case False
    then have res: "b' = b1" "s' = s1"
      using snoc.prems(1) st1 by (simp_all add: first_min_scan_snoc)
    have 2: "\<not> jlt (cost ((cs @ [c]) ! i)) b'" if "i < length (cs @ [c])" for i
    proof (cases "i < length cs")
      case True
      then show ?thesis using lb res by (simp add: nth_append)
    next
      case F: False
      then have "i = length cs" using that by simp
      then show ?thesis using False res by simp
    qed
    have 3: "(b' = b \<and> s' = s)
       \<or> (\<exists>j<length (cs @ [c]). s' = Some ((cs @ [c]) ! j) \<and> b' = cost ((cs @ [c]) ! j) \<and> jlt b' b
            \<and> (\<forall>i<j. \<not> jle (cost ((cs @ [c]) ! i)) b'))"
    proof (rule disjE [OF sel])
      assume "b1 = b \<and> s1 = s"
      then show ?thesis using res by simp
    next
      assume "\<exists>j<length cs. s1 = Some (cs ! j) \<and> b1 = cost (cs ! j) \<and> jlt b1 b
            \<and> (\<forall>i<j. \<not> jle (cost (cs ! i)) b1)"
      then obtain j where j: "j < length cs" "s1 = Some (cs ! j)" "b1 = cost (cs ! j)" "jlt b1 b"
        "\<forall>i<j. \<not> jle (cost (cs ! i)) b1"
        by blast
      have "\<forall>i<j. \<not> jle (cost ((cs @ [c]) ! i)) b'"
        using j(1,5) res by (simp add: nth_append)
      then have "j < length (cs @ [c]) \<and> s' = Some ((cs @ [c]) ! j) \<and> b' = cost ((cs @ [c]) ! j) \<and> jlt b' b
            \<and> (\<forall>i<j. \<not> jle (cost ((cs @ [c]) ! i)) b')"
        using j res by (simp add: nth_append)
      then show ?thesis by blast
    qed
    show ?thesis using nn res 2 3 by blast
  qed
qed

lemma jmul_one [simp]: "jmul x (Num 1) = x"
  by (cases x) (simp_all add: signed_inf_def)

lemma length_surfaces [simp]: "length (surfaces bb boxes) = length boxes"
  by (induction boxes arbitrary: bb) (simp_all add: Let_def)

lemma surfaces_nth:
  "j < length boxes \<Longrightarrow>
   surfaces bb boxes ! j
     = getSurfaceArea (foldl (\<lambda>bb box. addBoundingBox box bb) bb (take (Suc j) boxes))"
proof (induction boxes arbitrary: bb j)
  case Nil
  then show ?case by simp
next
  case (Cons box boxes)
  show ?case
  proof (cases j)
    case 0
    then show ?thesis by (simp add: Let_def)
  next
    case (Suc j')
    then have "j' < length boxes" using Cons.prems by simp
    from Cons.IH [OF this] Suc show ?thesis by (simp add: Let_def)
  qed
qed

lemma split_cost_code_cost:
  assumes "i < length (elem3 idxs axis)"
  shows "split_cost (getSurfaceArea box) (surfaces BoundingBox (axis_boxes tris idxs axis))
           (surfaces BoundingBox (rev (axis_boxes tris idxs axis))) i
         = code_cost tris idxs box (axis, Suc i)"
proof -
  let ?n = "length (elem3 idxs axis)"
  have len: "length (axis_boxes tris idxs axis) = ?n"
    by (simp add: axis_boxes_def)
  have i: "i < length (axis_boxes tris idxs axis)"
    using assms len by simp
  have j: "?n - 1 - i < length (rev (axis_boxes tris idxs axis))"
    using assms len by simp
  have e: "?n - 1 - i = ?n - Suc i"
    by simp
  show ?thesis
    unfolding split_cost_def code_cost_def bbFront_def bbBack_def union_boxes_def
    using surfaces_nth [OF i, of BoundingBox] surfaces_nth [OF j, of BoundingBox]
    by (simp add: Let_def len e)
qed

lemma foldl_try_split:
  "set is \<subseteq> {..<length (elem3 idxs axis)} \<Longrightarrow>
   foldl (try_split (getSurfaceArea box) (surfaces BoundingBox (axis_boxes tris idxs axis))
           (surfaces BoundingBox (rev (axis_boxes tris idxs axis))) axis) st is
   = first_min_scan (code_cost tris idxs box) (map (\<lambda>i. (axis, Suc i)) is) st"
proof (induction "is" arbitrary: st)
  case Nil
  then show ?case by (simp add: first_min_scan_def)
next
  case (Cons i "is")
  have i: "i < length (elem3 idxs axis)" using Cons.prems by simp
  have r: "set is \<subseteq> {..<length (elem3 idxs axis)}" using Cons.prems by simp
  have step: "try_split (getSurfaceArea box) (surfaces BoundingBox (axis_boxes tris idxs axis))
           (surfaces BoundingBox (rev (axis_boxes tris idxs axis))) axis st i
      = (if jlt (code_cost tris idxs box (axis, Suc i)) (fst st)
         then (code_cost tris idxs box (axis, Suc i), Some (axis, Suc i)) else st)"
    by (simp add: try_split_def split_cost_code_cost [OF i] Let_def)
  show ?case
    using Cons.IH [OF r] by (simp add: step first_min_scan_def)
qed

lemma setSplit_axis_scan:
  assumes "list_all (\<lambda>idx. lookup tris idx \<noteq> None) (elem3 idxs axis)"
  shows "setSplit_axis tris idxs (getSurfaceArea box) st axis
     = Inr (first_min_scan (code_cost tris idxs box)
              (map (\<lambda>i. (axis, Suc i)) [0..<length (elem3 idxs axis)]) st)"
proof -
  have "None \<notin> lookup tris ` set (elem3 idxs axis)"
    using assms by (auto simp: list_all_iff)
  moreover have "set [0..<length (elem3 idxs axis)] \<subseteq> {..<length (elem3 idxs axis)}"
    by auto
  ultimately show ?thesis
    using foldl_try_split [of "[0..<length (elem3 idxs axis)]" idxs axis box tris st]
    by (simp add: setSplit_axis_def Let_def axis_boxes_def)
qed

lemma first_min_scan_append:
  "first_min_scan cost (xs @ ys) st = first_min_scan cost ys (first_min_scan cost xs st)"
  by (simp add: first_min_scan_def)

lemma setSplit_scan:
  assumes "indices_valid tris idxs"
  shows "setSplit tris idxs box
     = Inr (first_min_scan (code_cost tris idxs box) (candidates idxs) (PInf, None))"
  using assms
  by (simp add: setSplit_def indices_valid_def setSplit_axis_scan candidates_def
      first_min_scan_append Let_def)

lemma setSplit_invalid:
  assumes "\<not> indices_valid tris idxs"
  shows "setSplit tris idxs box = Inl TypeError"
proof -
  have inv: "setSplit_axis tris idxs P st axis = Inl TypeError"
    if "\<not> list_all (\<lambda>idx. lookup tris idx \<noteq> None) (elem3 idxs axis)" for P st axis
  proof -
    from that obtain idx where "idx \<in> set (elem3 idxs axis)" "lookup tris idx = None"
      by (auto simp: list_all_iff)
    then have "None \<in> lookup tris ` set (elem3 idxs axis)"
      by force
    then show ?thesis
      by (simp add: setSplit_axis_def Let_def)
  qed
  have err: "e = TypeError" for e :: error
    by (cases e)
  show ?thesis
    using assms inv err
    by (auto simp: setSplit_def indices_valid_def Let_def split: sum.splits)
qed

lemma set_candidates:
  "set (candidates idxs) = {(a, k). a < 3 \<and> 1 \<le> k \<and> k \<le> length (elem3 idxs a)}"
proof -
  have m: "set (map (\<lambda>i. (a, Suc i)) [0..<n]) = {(a', k). a' = a \<and> 1 \<le> k \<and> k \<le> n}" for a n :: nat
  proof (intro equalityI subsetI)
    fix x assume "x \<in> set (map (\<lambda>i. (a, Suc i)) [0..<n])"
    then show "x \<in> {(a', k). a' = a \<and> 1 \<le> k \<and> k \<le> n}" by auto
  next
    fix x assume "x \<in> {(a', k). a' = a \<and> 1 \<le> k \<and> k \<le> n}"
    then obtain k where x: "x = (a, k)" "1 \<le> k" "k \<le> n" by auto
    then have "k - 1 \<in> set [0..<n]" "x = (a, Suc (k - 1))" by auto
    then show "x \<in> set (map (\<lambda>i. (a, Suc i)) [0..<n])" by (metis imageI set_map)
  qed
  have three: "a < 3 \<longleftrightarrow> a = 0 \<or> a = 1 \<or> a = 2" for a :: nat
    by auto
  show ?thesis
    unfolding candidates_def by (auto simp: m three simp del: set_map map_map)
qed

lemma sorted_axis_candidates:
  "sorted_wrt lex_before (map (\<lambda>i. (a, Suc i)) [0..<n])"
  by (simp add: sorted_wrt_map lex_before_def sorted_wrt_iff_nth_less)

lemma sorted_candidates: "sorted_wrt lex_before (candidates idxs)"
  unfolding candidates_def
  by (simp add: sorted_wrt_append sorted_axis_candidates del: map_map upt.simps)
     (auto simp: lex_before_def)

lemma lex_before_asym: "lex_before c c' \<Longrightarrow> \<not> lex_before c' c"
  by (auto simp: lex_before_def)

lemma earlier_candidate:
  assumes "j < length (candidates idxs)" "c \<in> set (candidates idxs)"
    "lex_before c (candidates idxs ! j)"
  shows "\<exists>i<j. candidates idxs ! i = c"
proof -
  from assms(2) obtain i where i: "i < length (candidates idxs)" "candidates idxs ! i = c"
    by (auto simp: in_set_conv_nth)
  have "i < j"
  proof (rule ccontr)
    assume "\<not> i < j"
    then consider "i = j" | "j < i" by linarith
    then show False
    proof cases
      case 1
      then show ?thesis using assms(3) i lex_before_asym by blast
    next
      case 2
      then have "lex_before (candidates idxs ! j) (candidates idxs ! i)"
        using sorted_candidates [of idxs] i(1) by (simp add: sorted_wrt_iff_nth_less)
      then show ?thesis using assms(3) i lex_before_asym by blast
    qed
  qed
  then show ?thesis using i by blast
qed

lemma BVH_initial_indices:
  "BVH fuel triangles maxTris = buildTree fuel triangles maxTris (initial_indices triangles)"
  by (simp add: BVH_def initial_indices_def Let_def)

text \<open>
  What \<open>setSplit\<close> computes when it returns (the index lists name triangles): it has
  considered, for each axis \<open>a\<close> in \<open>{0, 1, 2}\<close> and each split count \<open>k\<close> in \<open>1..N\<close>,
  the cost \<open>code_cost\<close>, whose back area is that of \<open>bbBack (N - k)\<close>. The split it
  leaves is the first pair of least cost in iteration order: no pair has a cost below
  it, and every pair before it has a cost that is not less than or equal to it. A split
  is left exactly when some pair has a cost below \<open>+\<infinity>\<close>.
\<close>

lemma setSplit_first_minimum:
  assumes "setSplit tris idxs box = Inr (best, sp)"
  shows "(sp = None \<longleftrightarrow> best = PInf)
    \<and> (sp = None \<longleftrightarrow>
         (\<forall>a k. a < 3 \<and> 1 \<le> k \<and> k \<le> length (elem3 idxs a) \<longrightarrow>
            \<not> jlt (code_cost tris idxs box (a, k)) PInf))
    \<and> (sp \<noteq> None \<longrightarrow> jlt best PInf)
    \<and> (\<forall>a k. a < 3 \<and> 1 \<le> k \<and> k \<le> length (elem3 idxs a) \<longrightarrow>
          \<not> jlt (code_cost tris idxs box (a, k)) best)
    \<and> (\<forall>a k. sp = Some (a, k) \<longrightarrow>
          a < 3 \<and> 1 \<le> k \<and> k \<le> length (elem3 idxs a)
          \<and> best = code_cost tris idxs box (a, k)
          \<and> (\<forall>a' k'. a' < 3 \<and> 1 \<le> k' \<and> k' \<le> length (elem3 idxs a')
                \<and> (a' < a \<or> (a' = a \<and> k' < k)) \<longrightarrow>
                \<not> jle (code_cost tris idxs box (a', k')) best))"
proof -
  let ?cs = "candidates idxs"
  let ?cost = "code_cost tris idxs box"
  have valid: "indices_valid tris idxs"
    using assms setSplit_invalid [of tris idxs box] by auto
  have scan: "first_min_scan ?cost ?cs (PInf, None) = (best, sp)"
    using assms setSplit_scan [OF valid, of box] by simp
  from first_min_scan_result [OF scan]
  have lb: "\<forall>i<length ?cs. \<not> jlt (?cost (?cs ! i)) best"
    and sel: "(best = PInf \<and> sp = None)
       \<or> (\<exists>j<length ?cs. sp = Some (?cs ! j) \<and> best = ?cost (?cs ! j) \<and> jlt best PInf
            \<and> (\<forall>i<j. \<not> jle (?cost (?cs ! i)) best))"
    by simp_all
  have 1: "sp = None \<longleftrightarrow> best = PInf"
    using sel by auto
  have 0: "sp \<noteq> None \<longrightarrow> jlt best PInf"
    using sel by auto
  have 2: "\<not> jlt (?cost (a, k)) best" if "a < 3 \<and> 1 \<le> k \<and> k \<le> length (elem3 idxs a)" for a k
  proof -
    have "(a, k) \<in> set ?cs"
      using that by (simp add: set_candidates)
    then obtain i where "i < length ?cs" "?cs ! i = (a, k)"
      by (auto simp: in_set_conv_nth)
    then show ?thesis using lb by metis
  qed
  have 3: "a < 3 \<and> 1 \<le> k \<and> k \<le> length (elem3 idxs a)
          \<and> best = ?cost (a, k)
          \<and> (\<forall>a' k'. a' < 3 \<and> 1 \<le> k' \<and> k' \<le> length (elem3 idxs a')
                \<and> (a' < a \<or> (a' = a \<and> k' < k)) \<longrightarrow>
                \<not> jle (?cost (a', k')) best)"
    if sp: "sp = Some (a, k)" for a k
  proof -
    from sel sp obtain j where j: "j < length ?cs" "?cs ! j = (a, k)" "best = ?cost (?cs ! j)"
      "\<forall>i<j. \<not> jle (?cost (?cs ! i)) best"
      by auto
    have "(a, k) \<in> set ?cs"
      using j(1,2) by (metis nth_mem)
    then have range: "a < 3 \<and> 1 \<le> k \<and> k \<le> length (elem3 idxs a)"
      by (simp add: set_candidates)
    have first: "\<not> jle (?cost (a', k')) best"
      if "a' < 3 \<and> 1 \<le> k' \<and> k' \<le> length (elem3 idxs a') \<and> (a' < a \<or> (a' = a \<and> k' < k))"
      for a' k'
    proof -
      have "(a', k') \<in> set ?cs"
        using that by (simp add: set_candidates)
      moreover have "lex_before (a', k') (?cs ! j)"
        using that j(2) by (auto simp: lex_before_def)
      ultimately obtain i where "i < j" "?cs ! i = (a', k')"
        using earlier_candidate [OF j(1)] by blast
      then show ?thesis using j(4) by metis
    qed
    show ?thesis
      using range j(2,3) first by simp
  qed
  have 4: "sp = None \<longleftrightarrow>
         (\<forall>a k. a < 3 \<and> 1 \<le> k \<and> k \<le> length (elem3 idxs a) \<longrightarrow>
            \<not> jlt (?cost (a, k)) PInf)"
  proof
    assume "sp = None"
    then have "best = PInf" using 1 by simp
    then show "\<forall>a k. a < 3 \<and> 1 \<le> k \<and> k \<le> length (elem3 idxs a) \<longrightarrow>
            \<not> jlt (?cost (a, k)) PInf"
      using 2 by simp
  next
    assume none: "\<forall>a k. a < 3 \<and> 1 \<le> k \<and> k \<le> length (elem3 idxs a) \<longrightarrow>
            \<not> jlt (?cost (a, k)) PInf"
    show "sp = None"
    proof (rule ccontr)
      assume "sp \<noteq> None"
      then obtain a k where sp: "sp = Some (a, k)" by auto
      from 3 [OF sp] have "a < 3 \<and> 1 \<le> k \<and> k \<le> length (elem3 idxs a)"
        and "best = ?cost (a, k)" by blast+
      moreover have "jlt best PInf" using 0 sp by simp
      ultimately show False using none by simp
    qed
  qed
  show ?thesis
    using 0 1 2 3 4 by blast
qed

lemmas split_eval_defs =
  initial_indices_def sortIndices_def centroid_key_def centroid_def small_triangle_def
  large_triangle_def Triangle_def addTriangle_def addVertex_def BoundingBox_def
  addBoundingBox_def getSurfaceArea_def jsub_def jmin_def jmax_def signed_inf_def Let_def

lemma two_triangle_indices:
  "initial_indices [small_triangle, large_triangle]
     = ([Some 1, Some 0], [Some 0, Some 1], [Some 0, Some 1])"
  by (simp add: split_eval_defs)

lemma two_triangle_node:
  "new_Node [small_triangle, large_triangle] ([Some 1, Some 0], [Some 0, Some 1], [Some 0, Some 1])
     = Inr (\<lparr> bb_min = (Num 0, Num 0, Num 0), bb_max = (Num 16, Num 16, Num 0) \<rparr>, Some (1, 1))"
  by (simp add: new_Node_def setSplit_def setSplit_axis_def try_split_def split_cost_def
      split_eval_defs)

lemma two_triangle_spec:
  "spec_setSplit [small_triangle, large_triangle] ([Some 1, Some 0], [Some 0, Some 1], [Some 0, Some 1])
     \<lparr> bb_min = (Num 0, Num 0, Num 0), bb_max = (Num 16, Num 16, Num 0) \<rparr>
   = (Num (273 / 256), Some (0, 1))"
  by (simp add: spec_setSplit_def spec_candidates_def spec_cost_def first_min_scan_def
      bbFront_def bbBack_def union_boxes_def axis_boxes_def split_eval_defs)

lemma two_triangle_setSplit:
  "setSplit [small_triangle, large_triangle] ([Some 1, Some 0], [Some 0, Some 1], [Some 0, Some 1])
     \<lparr> bb_min = (Num 0, Num 0, Num 0), bb_max = (Num 16, Num 16, Num 0) \<rparr>
   = Inr (Num (513 / 256), Some (1, 1))"
  by (simp add: setSplit_def setSplit_axis_def try_split_def split_cost_def split_eval_defs)

lemma two_triangle_costs:
  "code_cost [small_triangle, large_triangle] ([Some 1, Some 0], [Some 0, Some 1], [Some 0, Some 1])
     \<lparr> bb_min = (Num 0, Num 0, Num 0), bb_max = (Num 16, Num 16, Num 0) \<rparr> (0, 1) = Num (33 / 16)"
  "code_cost [small_triangle, large_triangle] ([Some 1, Some 0], [Some 0, Some 1], [Some 0, Some 1])
     \<lparr> bb_min = (Num 0, Num 0, Num 0), bb_max = (Num 16, Num 16, Num 0) \<rparr> (0, 2) = Num 3"
  "code_cost [small_triangle, large_triangle] ([Some 1, Some 0], [Some 0, Some 1], [Some 0, Some 1])
     \<lparr> bb_min = (Num 0, Num 0, Num 0), bb_max = (Num 16, Num 16, Num 0) \<rparr> (1, 1) = Num (513 / 256)"
  "spec_cost [small_triangle, large_triangle] ([Some 1, Some 0], [Some 0, Some 1], [Some 0, Some 1])
     \<lparr> bb_min = (Num 0, Num 0, Num 0), bb_max = (Num 16, Num 16, Num 0) \<rparr> (0, 1) = Num (273 / 256)"
  "spec_cost [small_triangle, large_triangle] ([Some 1, Some 0], [Some 0, Some 1], [Some 0, Some 1])
     \<lparr> bb_min = (Num 0, Num 0, Num 0), bb_max = (Num 16, Num 16, Num 0) \<rparr> (1, 1) = Num (273 / 256)"
  by (simp_all add: code_cost_def spec_cost_def bbFront_def bbBack_def union_boxes_def
      axis_boxes_def split_eval_defs)

lemma two_triangle_partition:
  "constructCachedIndexList ([Some 1, Some 0], [Some 0, Some 1], [Some 0, Some 1]) (Some (0, 1))
     = Inr (([Some 1], [Some 1], [Some 1]), ([Some 0], [Some 0], [Some 0]))"
  by (simp add: constructCachedIndexList_def js_set_def Let_def)

lemma two_triangle_back_areas:
  "getSurfaceArea (bbBack [small_triangle, large_triangle]
     ([Some 1, Some 0], [Some 0, Some 1], [Some 0, Some 1]) 0 1) = Num 512"
  "getSurfaceArea (bbBack [small_triangle, large_triangle]
     ([Some 1, Some 0], [Some 0, Some 1], [Some 0, Some 1]) 0 0) = Num 2"
  "getSurfaceArea (boundingBox small_triangle) = Num 2"
  by (simp_all add: bbBack_def union_boxes_def axis_boxes_def split_eval_defs)

text \<open>
  C3: the code does not compute the stated cost. The split \<open>(a, k)\<close> gives the first \<open>k\<close>
  triangles of the axis order to the left child and the other \<open>N - k\<close> to the right one,
  and the cost weights the two areas by \<open>k\<close> and \<open>N - k\<close>; but the back area is read from
  \<^verbatim>\<open>surfacesBack[surfacesBack.length - 1 - i]\<close> with \<open>i = k - 1\<close>, the area of the box
  of the last \<open>N - k + 1\<close> triangles, which still holds the \<open>k\<close>-th triangle. For the two
  triangles and the pair \<open>(0, 1)\<close> the right child would hold the small triangle alone,
  of area 2, and the stated cost is \<open>1 + 32/512 + 2/512\<close>; the code takes the area 512
  of the box of both and computes \<open>1 + 32/512 + 512/512\<close>. It leaves the split
  \<open>(1, 1)\<close>, where the first pair of least stated cost is \<open>(0, 1)\<close>.
\<close>

theorem setSplit_back_area_off_by_one:
  "initial_indices [small_triangle, large_triangle]
     = ([Some 1, Some 0], [Some 0, Some 1], [Some 0, Some 1])
   \<and> new_Node [small_triangle, large_triangle] (initial_indices [small_triangle, large_triangle])
     = Inr (\<lparr> bb_min = (Num 0, Num 0, Num 0), bb_max = (Num 16, Num 16, Num 0) \<rparr>, Some (1, 1))
   \<and> spec_setSplit [small_triangle, large_triangle]
       (initial_indices [small_triangle, large_triangle])
       \<lparr> bb_min = (Num 0, Num 0, Num 0), bb_max = (Num 16, Num 16, Num 0) \<rparr>
     = (Num (273 / 256), Some (0, 1))
   \<and> code_cost [small_triangle, large_triangle]
       (initial_indices [small_triangle, large_triangle])
       \<lparr> bb_min = (Num 0, Num 0, Num 0), bb_max = (Num 16, Num 16, Num 0) \<rparr> (0, 1) = Num (33 / 16)
   \<and> spec_cost [small_triangle, large_triangle]
       (initial_indices [small_triangle, large_triangle])
       \<lparr> bb_min = (Num 0, Num 0, Num 0), bb_max = (Num 16, Num 16, Num 0) \<rparr> (0, 1) = Num (273 / 256)
   \<and> constructCachedIndexList (initial_indices [small_triangle, large_triangle]) (Some (0, 1))
     = Inr (([Some 1], [Some 1], [Some 1]), ([Some 0], [Some 0], [Some 0]))
   \<and> getSurfaceArea (boundingBox ([small_triangle, large_triangle] ! 0)) = Num 2
   \<and> getSurfaceArea (bbBack [small_triangle, large_triangle]
        (initial_indices [small_triangle, large_triangle]) 0 0) = Num 2
   \<and> getSurfaceArea (bbBack [small_triangle, large_triangle]
        (initial_indices [small_triangle, large_triangle]) 0 1) = Num 512"
proof -
  have first: "[small_triangle, large_triangle] ! 0 = small_triangle"
    by simp
  show ?thesis
    unfolding first
    by (simp only: two_triangle_indices two_triangle_node two_triangle_spec two_triangle_costs
        two_triangle_partition two_triangle_back_areas simp_thms)
qed

section \<open>The serializer and the packer\<close>

lemma length_entries_from [simp]: "length (entries_from t p) = count_nodes t"
  by (induction t arbitrary: p) auto

lemma count_nodes_pos [simp]: "0 < count_nodes t"
  by (cases t) auto

lemma traverseTree_entries:
  "traverseTree t (nodes, i) = (i + 1, nodes @ entries_from t (i + 1), i + int (count_nodes t))"
proof (induction t arbitrary: nodes i)
  case (Leaf box sp idxs)
  show ?case by (simp add: Let_def)
next
  case (Internal box sp l r)
  show ?case
    by (simp add: Internal.IH Let_def nth_append list_update_append add.commute add.left_commute)
qed

lemma serializeTree_entries: "serializeTree t = entries_from t 0"
  by (simp add: serializeTree_def traverseTree_entries)

lemma map_e_node_entries: "map e_node (entries_from t p) = preorder t"
  by (induction t arbitrary: p) auto

lemma length_preorder [simp]: "length (preorder t) = count_nodes t"
  by (induction t) auto

lemma entries_subtree:
  "p < count_nodes t \<Longrightarrow>
   take (count_nodes (e_node (entries_from t q ! p))) (drop p (entries_from t q))
     = entries_from (e_node (entries_from t q ! p)) (q + int p)"
proof (induction t arbitrary: p q)
  case (Leaf box sp idxs)
  then show ?case by simp
next
  case (Internal box sp l r)
  let ?El = "entries_from l (q + 1)"
  let ?Er = "entries_from r (q + 1 + int (count_nodes l))"
  show ?case
  proof (cases p)
    case 0
    then show ?thesis by simp
  next
    case (Suc p')
    show ?thesis
    proof (cases "p' < count_nodes l")
      case True
      let ?n = "e_node (?El ! p')"
      from Internal.IH(1)[OF True, of "q + 1"]
      have ih: "take (count_nodes ?n) (drop p' ?El) = entries_from ?n (q + 1 + int p')" .
      then have "length (take (count_nodes ?n) (drop p' ?El)) = count_nodes ?n" by simp
      then have le: "count_nodes ?n \<le> count_nodes l - p'" by simp
      show ?thesis using Suc True ih le
        by (simp add: nth_append add.commute add.left_commute)
    next
      case False
      let ?p2 = "p' - count_nodes l"
      have p2: "?p2 < count_nodes r" using False Internal.prems Suc by simp
      let ?n = "e_node (?Er ! ?p2)"
      from Internal.IH(2)[OF p2, of "q + 1 + int (count_nodes l)"]
      have ih: "take (count_nodes ?n) (drop ?p2 ?Er) = entries_from ?n (q + 1 + int (count_nodes l) + int ?p2)" .
      have "int (count_nodes l) + int ?p2 = int p'" using False by simp
      then show ?thesis using Suc False ih
        by (simp add: nth_append add.commute add.left_commute)
    qed
  qed
qed

lemma length_vec3_cells [simp]: "length (vec3_cells v) = 3"
  by (cases v) simp

lemma length_triangle_cells [simp]: "length (triangle_cells t) = 9"
  by (simp add: triangle_cells_def split: prod.splits)

lemma length_node_record [simp]: "length (node_record e base) = 9"
  by (simp add: node_record_def)

lemma push_triangles_Inr:
  "push_triangles ts tb = Inr tb' \<Longrightarrow>
   tb' = tb @ concat (map (\<lambda>t. triangle_cells (the t)) ts) \<and> None \<notin> set ts"
proof (induction ts arbitrary: tb)
  case Nil
  then show ?case by simp
next
  case (Cons t ts)
  show ?case
  proof (cases t)
    case None
    then show ?thesis using Cons.prems by simp
  next
    case (Some a)
    then have "push_triangles ts (tb @ triangle_cells a) = Inr tb'"
      using Cons.prems by simp
    from Cons.IH [OF this] Some show ?thesis by simp
  qed
qed

lemma length_concat_cells: "length (concat (map (\<lambda>t. triangle_cells (f t)) ts)) = 9 * length ts"
  by (induction ts) auto

lemma pack_entry_Inr:
  assumes "pack_entry tris e bufs = Inr bufs'" "length (trianglesBuffer bufs) = 9 * base"
  shows "bvhBuffer bufs' = bvhBuffer bufs @ node_record e base"
    and "trianglesBuffer bufs' =
           trianglesBuffer bufs @ concat (map triangle_cells (node_triangles tris (e_node e)))"
    and "length (trianglesBuffer bufs') = 9 * (base + leaf_count (e_node e))"
proof -
  show a: "bvhBuffer bufs' = bvhBuffer bufs @ node_record e base"
    using assms
    by (cases "e_node e")
      (auto simp: pack_entry_def node_record_def Let_def split: sum.splits)
  show b: "trianglesBuffer bufs' =
           trianglesBuffer bufs @ concat (map triangle_cells (node_triangles tris (e_node e)))"
    using assms
    by (cases "e_node e")
      (auto simp: pack_entry_def Let_def comp_def dest!: push_triangles_Inr split: sum.splits)
  show "length (trianglesBuffer bufs') = 9 * (base + leaf_count (e_node e))"
    using assms(2) unfolding b
    by (cases "e_node e") (simp_all add: getTriangles_def length_concat_cells comp_def)
qed

lemma pack_entries_Inr:
  "pack_entries tris es bufs = Inr bufs' \<Longrightarrow> length (trianglesBuffer bufs) = 9 * base \<Longrightarrow>
   bvhBuffer bufs' = bvhBuffer bufs @ records es base
   \<and> trianglesBuffer bufs' =
       trianglesBuffer bufs
         @ concat (map triangle_cells (concat (map (\<lambda>e. node_triangles tris (e_node e)) es)))"
proof (induction es arbitrary: bufs base)
  case Nil
  then show ?case by simp
next
  case (Cons e es)
  from Cons.prems(1) obtain b1 where b1: "pack_entry tris e bufs = Inr b1"
    and rest: "pack_entries tris es b1 = Inr bufs'"
    by (auto split: sum.splits)
  note pe = pack_entry_Inr [OF b1 Cons.prems(2)]
  from Cons.IH [OF rest pe(3)] pe(1,2) show ?case by simp
qed

lemma records_nth:
  "p < length es \<Longrightarrow> k < 9 \<Longrightarrow>
   records es base ! (9 * p + k)
     = node_record (es ! p) (base + sum_list (map (\<lambda>e. leaf_count (e_node e)) (take p es))) ! k"
proof (induction es arbitrary: p base)
  case Nil
  then show ?case by simp
next
  case (Cons e es)
  show ?case
  proof (cases p)
    case 0
    then show ?thesis using Cons.prems by (simp add: nth_append)
  next
    case (Suc p')
    then have "p' < length es" using Cons.prems by simp
    from Cons.IH [OF this Cons.prems(2), of "base + leaf_count (e_node e)"] Suc
    show ?thesis by (simp add: nth_append add.assoc)
  qed
qed

lemma length_records [simp]: "length (records es base) = 9 * length es"
  by (induction es arbitrary: base) auto

lemma push_triangles_valid:
  "None \<notin> set ts \<Longrightarrow> \<exists>tb'. push_triangles ts tb = Inr tb'"
proof (induction ts arbitrary: tb)
  case Nil
  then show ?case by simp
next
  case (Cons t ts)
  then obtain a where a: "t = Some a" and ts: "None \<notin> set ts"
    by (cases t) auto
  from Cons.IH [OF ts] show ?case
    using a by simp
qed

lemma pack_entry_valid:
  "leaves_valid tris (e_node e) \<Longrightarrow> \<exists>bufs'. pack_entry tris e bufs = Inr bufs'"
proof (cases "e_node e")
  case (Leaf box sp idxs)
  assume "leaves_valid tris (e_node e)"
  then have "None \<notin> set (getTriangles tris idxs)"
    using Leaf by (auto simp: getTriangles_def list_all_iff)
  from push_triangles_valid [OF this] obtain tb'
    where "push_triangles (getTriangles tris idxs) (trianglesBuffer bufs) = Inr tb'"
    by blast
  then show ?thesis using Leaf by (simp add: pack_entry_def Let_def)
next
  case (Internal box sp l r)
  then show ?thesis by (simp add: pack_entry_def Let_def)
qed

lemma pack_entries_valid:
  "list_all (\<lambda>e. leaves_valid tris (e_node e)) es \<Longrightarrow> \<exists>bufs'. pack_entries tris es bufs = Inr bufs'"
proof (induction es arbitrary: bufs)
  case Nil
  then show ?case by simp
next
  case (Cons e es)
  from Cons.prems have e: "leaves_valid tris (e_node e)"
    and es: "list_all (\<lambda>e. leaves_valid tris (e_node e)) es"
    by simp_all
  from pack_entry_valid [OF e] obtain b1 where b1: "pack_entry tris e bufs = Inr b1"
    by blast
  from Cons.IH [OF es] obtain b2 where "pack_entries tris es b1 = Inr b2"
    by blast
  then show ?case
    using b1 by simp
qed

lemma leaves_valid_preorder:
  "leaves_valid tris t \<Longrightarrow> list_all (leaves_valid tris) (preorder t)"
  by (induction t) simp_all

lemma pack_tree_valid:
  assumes "leaves_valid tris t"
  shows "\<exists>bufs. pack_tree tris t = Inr bufs"
proof -
  have "list_all (\<lambda>e. leaves_valid tris (e_node e)) (serializeTree t)"
  proof -
    have "list_all (leaves_valid tris) (map e_node (serializeTree t))"
      using leaves_valid_preorder [OF assms]
      by (simp only: serializeTree_entries map_e_node_entries)
    then show ?thesis
      by (simp add: list_all_iff)
  qed
  from pack_entries_valid [OF this] show ?thesis
    by (simp add: pack_tree_def)
qed

lemma pack_tree_Inr:
  assumes "pack_tree tris t = Inr bufs"
  shows "bvhBuffer bufs = records (serializeTree t) 0"
    and "trianglesBuffer bufs
           = concat (map triangle_cells (concat (map (node_triangles tris) (preorder t))))"
proof -
  have "pack_entries tris (serializeTree t) \<lparr> bvhBuffer = [], trianglesBuffer = [] \<rparr> = Inr bufs"
    using assms by (simp add: pack_tree_def)
  from pack_entries_Inr [OF this, of 0]
  have a: "bvhBuffer bufs = records (serializeTree t) 0"
    and b: "trianglesBuffer bufs = concat (map triangle_cells
        (concat (map (\<lambda>e. node_triangles tris (e_node e)) (serializeTree t))))"
    by simp_all
  show "bvhBuffer bufs = records (serializeTree t) 0" by (rule a)
  have "map (\<lambda>e. node_triangles tris (e_node e)) (serializeTree t)
      = map (node_triangles tris) (map e_node (serializeTree t))"
    by simp
  also have "\<dots> = map (node_triangles tris) (preorder t)"
    by (simp only: serializeTree_entries map_e_node_entries)
  finally show "trianglesBuffer bufs
           = concat (map triangle_cells (concat (map (node_triangles tris) (preorder t))))"
    using b by simp
qed

lemma subtree_ranges:
  assumes "p < count_nodes t" "e_node (entries_from t q ! p) = Internal box sp l r"
  shows "e_left (entries_from t q ! p) = Some (q + int p + 1)"
    and "e_right (entries_from t q ! p) = Some (q + int p + 1 + int (count_nodes l))"
    and "take (count_nodes l) (drop (p + 1) (entries_from t q)) = entries_from l (q + int p + 1)"
    and "take (count_nodes r) (drop (p + 1 + count_nodes l) (entries_from t q))
           = entries_from r (q + int p + 1 + int (count_nodes l))"
    and "p + 1 + count_nodes l + count_nodes r \<le> count_nodes t"
proof -
  let ?E = "entries_from t q"
  let ?D = "drop p ?E"
  let ?El = "entries_from l (q + int p + 1)"
  let ?Er = "entries_from r (q + int p + 1 + int (count_nodes l))"
  let ?e = "\<lparr> e_node = Internal box sp l r, e_left = Some (q + int p + 1),
       e_right = Some (q + int p + 1 + int (count_nodes l)) \<rparr>"
  have sub: "take (1 + count_nodes l + count_nodes r) ?D = ?e # ?El @ ?Er"
    using entries_subtree [OF assms(1), of q] assms(2) by simp
  then have "length (take (1 + count_nodes l + count_nodes r) ?D) = 1 + count_nodes l + count_nodes r"
    by simp
  then show le: "p + 1 + count_nodes l + count_nodes r \<le> count_nodes t"
    by simp
  have D: "?D = (?e # ?El @ ?Er) @ drop (1 + count_nodes l + count_nodes r) ?D"
    using sub append_take_drop_id [of "1 + count_nodes l + count_nodes r" ?D] by simp
  have hd: "?D ! 0 = ?e"
    by (subst D) simp
  have "?D ! 0 = ?E ! p"
    using assms(1) by simp
  with hd have e: "?E ! p = ?e" by simp
  show "e_left (?E ! p) = Some (q + int p + 1)"
    and "e_right (?E ! p) = Some (q + int p + 1 + int (count_nodes l))"
    by (simp_all add: e)
  have d1: "drop (p + 1) ?E = drop 1 ?D"
    by (simp add: add.commute)
  have d1': "drop 1 ?D = ?El @ ?Er @ drop (1 + count_nodes l + count_nodes r) ?D"
    by (subst D) simp
  show "take (count_nodes l) (drop (p + 1) ?E) = ?El"
    unfolding d1 d1' by simp
  have d2: "drop (p + 1 + count_nodes l) ?E = drop (count_nodes l) (drop 1 ?D)"
    by (simp add: add.commute add.left_commute)
  show "take (count_nodes r) (drop (p + 1 + count_nodes l) ?E) = ?Er"
    unfolding d2 d1' by simp
qed

lemma entries_from_hd: "e_node (entries_from t q ! 0) = t"
  by (cases t) simp_all

lemma preorder_nth_entries: "p < count_nodes t \<Longrightarrow> e_node (entries_from t q ! p) = preorder t ! p"
  using map_e_node_entries [of t q] by (metis length_entries_from nth_map)

lemma base_index:
  assumes "pack_tree tris t = Inr bufs" "p < count_nodes t"
  shows "bvhBuffer bufs ! (9 * p + 2)
     = Some (if is_leaf (preorder t ! p)
             then Num (real (sum_list (map leaf_count (take p (preorder t))))) else Num (- 1))"
proof -
  have len: "p < length (serializeTree t)"
    using assms(2) by (simp add: serializeTree_entries)
  have "map (\<lambda>e. leaf_count (e_node e)) (take p (serializeTree t))
      = map leaf_count (take p (map e_node (serializeTree t)))"
    by (simp add: take_map)
  then have s: "map (\<lambda>e. leaf_count (e_node e)) (take p (serializeTree t))
      = map leaf_count (take p (preorder t))"
    by (simp only: serializeTree_entries map_e_node_entries)
  have n: "e_node (serializeTree t ! p) = preorder t ! p"
    using assms(2) by (simp add: serializeTree_entries preorder_nth_entries)
  have "bvhBuffer bufs ! (9 * p + 2)
      = node_record (serializeTree t ! p)
          (0 + sum_list (map (\<lambda>e. leaf_count (e_node e)) (take p (serializeTree t)))) ! 2"
    unfolding pack_tree_Inr(1) [OF assms(1)] by (rule records_nth [OF len]) simp
  then show ?thesis
    by (simp add: node_record_def s n)
qed

lemma triangle_cells_verts:
  "triangle_cells tri =
     (case verts tri of ((x0, y0, z0), (x1, y1, z1), (x2, y2, z2)) \<Rightarrow>
        [x0, y0, z0, x1, y1, z1, x2, y2, z2])"
  by (simp add: triangle_cells_def split: prod.splits)

lemma tree_triangles_Internal:
  "tree_triangles tris (Internal box sp l r) = tree_triangles tris l @ tree_triangles tris r"
  by (simp add: tree_triangles_def)

lemma tree_triangles_slots:
  "leaves_valid tris t \<Longrightarrow> tree_triangles tris t = map (\<lambda>s. tris ! the s) (tree_slots t)"
proof (induction t)
  case (Leaf box sp idxs)
  have "the (lookup tris s) = tris ! the s" if "s \<in> set (elem3 idxs 0)" for s
  proof -
    have "lookup tris s \<noteq> None"
      using Leaf that by (simp add: list_all_iff)
    then show ?thesis
      by (cases s) (auto split: if_splits)
  qed
  then show ?case
    by (simp add: tree_triangles_def getTriangles_def)
next
  case (Internal box sp l r)
  then show ?case by (simp add: tree_triangles_Internal)
qed

lemma trianglesBuffer_slots:
  assumes "leaves_valid tris t" "pack_tree tris t = Inr bufs"
  shows "trianglesBuffer bufs
     = concat (map (\<lambda>s. case verts (tris ! the s) of
                       ((x0, y0, z0), (x1, y1, z1), (x2, y2, z2)) \<Rightarrow>
                         [x0, y0, z0, x1, y1, z1, x2, y2, z2]) (tree_slots t))"
proof -
  have "trianglesBuffer bufs = concat (map triangle_cells (tree_triangles tris t))"
    using pack_tree_Inr(2) [OF assms(2)] by (simp add: tree_triangles_def)
  also have "\<dots> = concat (map triangle_cells (map (\<lambda>s. tris ! the s) (tree_slots t)))"
    by (simp only: tree_triangles_slots [OF assms(1)])
  also have "\<dots> = concat (map (\<lambda>s. triangle_cells (tris ! the s)) (tree_slots t))"
    by (simp add: comp_def)
  finally show ?thesis
    by (simp only: triangle_cells_verts)
qed

text \<open>
  C7: \<open>serializeTree\<close> emits one element per node, in depth-first preorder, the root
  first (ordinal 0). An internal node at ordinal \<open>p\<close> records its left child at
  ordinal \<open>p + 1\<close> and its right child right after the left subtree; the left subtree
  occupies the ordinals from \<open>p + 1\<close>, the right subtree the ordinals after it, and
  both lie inside the array. For a tree whose leaves name existing triangles the packer
  succeeds; \<^verbatim>\<open>trianglesBuffer\<close> holds, for the leaves from left to right and for each
  index \<open>i\<close> of a leaf in the order of its list, the nine coordinates of the vertices
  of \<open>tris ! i\<close>; and cell 2 of a leaf's record (\<open>triangleBaseIndex\<close>) is the number of
  triangles of all earlier leaves.
\<close>

theorem serializeTree_preorder:
  assumes "leaves_valid tris t"
  shows "map e_node (serializeTree t) = preorder t
    \<and> e_node (serializeTree t ! 0) = t
    \<and> (\<forall>p box sp l r.
          p < count_nodes t \<and> e_node (serializeTree t ! p) = Internal box sp l r \<longrightarrow>
            e_left (serializeTree t ! p) = Some (int p + 1)
          \<and> e_right (serializeTree t ! p) = Some (int p + 1 + int (count_nodes l))
          \<and> p + 1 + count_nodes l + count_nodes r \<le> count_nodes t
          \<and> map e_node (take (count_nodes l) (drop (p + 1) (serializeTree t))) = preorder l
          \<and> map e_node (take (count_nodes r) (drop (p + 1 + count_nodes l) (serializeTree t)))
              = preorder r)
    \<and> (\<exists>bufs. pack_tree tris t = Inr bufs
          \<and> trianglesBuffer bufs
              = concat (map (\<lambda>s. case verts (tris ! the s) of
                                ((x0, y0, z0), (x1, y1, z1), (x2, y2, z2)) \<Rightarrow>
                                  [x0, y0, z0, x1, y1, z1, x2, y2, z2]) (tree_slots t))
          \<and> (\<forall>p. p < count_nodes t \<and> is_leaf (preorder t ! p) \<longrightarrow>
                bvhBuffer bufs ! (9 * p + 2)
                  = Some (Num (real (sum_list (map leaf_count (take p (preorder t))))))))"
proof -
  have a: "map e_node (serializeTree t) = preorder t"
    by (simp only: serializeTree_entries map_e_node_entries)
  have b: "e_node (serializeTree t ! 0) = t"
    by (simp only: serializeTree_entries entries_from_hd)
  have c: "e_left (serializeTree t ! p) = Some (int p + 1)
          \<and> e_right (serializeTree t ! p) = Some (int p + 1 + int (count_nodes l))
          \<and> p + 1 + count_nodes l + count_nodes r \<le> count_nodes t
          \<and> map e_node (take (count_nodes l) (drop (p + 1) (serializeTree t))) = preorder l
          \<and> map e_node (take (count_nodes r) (drop (p + 1 + count_nodes l) (serializeTree t)))
              = preorder r"
    if "p < count_nodes t" "e_node (serializeTree t ! p) = Internal box sp l r" for p box sp l r
  proof -
    have n: "e_node (entries_from t 0 ! p) = Internal box sp l r"
      using that(2) by (simp only: serializeTree_entries)
    note sr = subtree_ranges [OF that(1) n]
    show ?thesis
      unfolding serializeTree_entries using sr
      by (simp add: map_e_node_entries)
  qed
  from pack_tree_valid [OF assms] obtain bufs where bufs: "pack_tree tris t = Inr bufs"
    by blast
  have d: "bvhBuffer bufs ! (9 * p + 2)
                  = Some (Num (real (sum_list (map leaf_count (take p (preorder t))))))"
    if "p < count_nodes t" "is_leaf (preorder t ! p)" for p
    using base_index [OF bufs that(1)] that(2) by simp
  show ?thesis
    using a b c bufs trianglesBuffer_slots [OF assms bufs] d by blast
qed

lemmas bvh_defs =
  BVH_def sortIndices_def centroid_key_def centroid_def new_Node_def setSplit_def
  setSplit_axis_def try_split_def split_cost_def getSurfaceArea_def addBoundingBox_def
  addTriangle_def addVertex_def BoundingBox_def constructCachedIndexList_def js_set_def
  unit_triangle_def Triangle_def jsub_def jmin_def jmax_def signed_inf_def Let_def

lemma build1: "BVH 1 [unit_triangle] 4 = Some (Inr single_leaf)"
  by (simp add: bvh_defs single_leaf_def)

lemma build2: "BVH 2 [unit_triangle, unit_triangle] 1 = Some (Inr two_leaves)"
  by (simp add: bvh_defs two_leaves_def eval_nat_numeral)

lemma ceil_sqrt3: "\<lceil>sqrt 3 / 3\<rceil> = 1"
proof -
  have "0 < sqrt 3 / 3" by simp
  moreover have "sqrt 3 \<le> 3" by (rule real_le_lsqrt) simp_all
  ultimately show ?thesis by (simp add: ceiling_eq_iff)
qed

lemma pad9: "length xs = 9 \<Longrightarrow> padBuffer xs 3 3 = xs"
  by (simp add: padBuffer_def Let_def ceil_sqrt3)

lemma pack1: "pack_tree [unit_triangle] single_leaf =
   Inr \<lparr> bvhBuffer = [None, None, Some (Num 0), Some (Num 0), Some (Num 0), Some (Num 0),
            Some (Num 1), Some (Num 1), Some (Num 0)],
          trianglesBuffer = [Num 0, Num 0, Num 0, Num 1, Num 0, Num 0, Num 0, Num 1, Num 0] \<rparr>"
  by (simp add: pack_tree_def serializeTree_def single_leaf_def pack_entry_def Let_def
     getTriangles_def triangle_cells_def unit_triangle_def Triangle_def ordinal_cell_def)

lemma leaf_entry:
  assumes "p < count_nodes t" "is_leaf (e_node (entries_from t q ! p))"
  shows "e_left (entries_from t q ! p) = None \<and> e_right (entries_from t q ! p) = None"
proof -
  obtain box sp idxs where n: "e_node (entries_from t q ! p) = Leaf box sp idxs"
    using assms(2) by (cases "e_node (entries_from t q ! p)") auto
  have "take 1 (drop p (entries_from t q)) = [\<lparr> e_node = Leaf box sp idxs, e_left = None, e_right = None \<rparr>]"
    using entries_subtree [OF assms(1), of q] n by simp
  moreover have "take 1 (drop p (entries_from t q)) = [entries_from t q ! p]"
    using assms(1) by (simp add: take_Suc_conv_app_nth)
  ultimately have "entries_from t q ! p = \<lparr> e_node = Leaf box sp idxs, e_left = None, e_right = None \<rparr>"
    by simp
  then show ?thesis by simp
qed

lemma record_cells:
  assumes "pack_tree tris t = Inr bufs" "p < count_nodes t" "k < 9"
  shows "bvhBuffer bufs ! (9 * p + k)
     = node_record (serializeTree t ! p) (sum_list (map leaf_count (take p (preorder t)))) ! k"
proof -
  have len: "p < length (serializeTree t)"
    using assms(2) by (simp add: serializeTree_entries)
  have "map (\<lambda>e. leaf_count (e_node e)) (take p (serializeTree t))
      = map leaf_count (take p (map e_node (serializeTree t)))"
    by (simp add: take_map)
  then have s: "map (\<lambda>e. leaf_count (e_node e)) (take p (serializeTree t))
      = map leaf_count (take p (preorder t))"
    by (simp only: serializeTree_entries map_e_node_entries)
  have "bvhBuffer bufs ! (9 * p + k)
      = node_record (serializeTree t ! p)
          (0 + sum_list (map (\<lambda>e. leaf_count (e_node e)) (take p (serializeTree t)))) ! k"
    unfolding pack_tree_Inr(1) [OF assms(1)] by (rule records_nth [OF len assms(3)])
  then show ?thesis
    by (simp add: s)
qed

lemma padBuffer_prefix: "\<exists>pad. padBuffer buffer perElement channels = buffer @ pad"
  by (simp add: padBuffer_def Let_def)

lemma maskBVHBuffer_nth:
  "k < length buffer \<Longrightarrow>
   maskBVHBuffer (buffer @ pad) ! k
     = (if k mod 9 < 3 then IntBits (ToInt32 (buffer ! k)) else FloatVal (ToFloat (buffer ! k)))"
  by (simp add: maskBVHBuffer_def nth_append)

lemma length_maskBVHBuffer [simp]: "length (maskBVHBuffer buffer) = length buffer"
  by (simp add: maskBVHBuffer_def)

lemma ToInt32_nat: "ToInt32 (Some (Num (real n))) = word_of_nat n"
  by simp

lemma ToInt32_minus_1: "ToInt32 (Some (Num (- 1))) = - 1"
proof -
  have "\<lceil>- 1 :: real\<rceil> = - 1"
    by (simp add: ceiling_eq_iff)
  then show ?thesis by simp
qed

lemma length_node_triangles [simp]: "length (node_triangles tris n) = leaf_count n"
  by (cases n) (simp_all add: getTriangles_def)

lemma upt9: "[0..<9] = [0, 1, 2, 3, 4, 5, 6, 7, 8 :: nat]"
  by code_simp

lemma tex1: "bvh_texture [unit_triangle] single_leaf =
   Inr [IntBits 0, IntBits 0, IntBits 0, FloatVal (Num 0), FloatVal (Num 0), FloatVal (Num 0),
        FloatVal (Num 1), FloatVal (Num 1), FloatVal (Num 0)]"
  by (simp add: bvh_texture_def pack1 pad9 maskBVHBuffer_def upt9)

lemma drop_length_plus: "drop (length xs + k) (xs @ ys) = drop k ys"
  by (induction xs) simp_all

lemma leaf_slice:
  "p < length ns \<Longrightarrow>
   take (9 * leaf_count (ns ! p))
     (drop (9 * sum_list (map leaf_count (take p ns)))
        (concat (map triangle_cells (concat (map (node_triangles tris) ns)))))
   = concat (map triangle_cells (node_triangles tris (ns ! p)))"
proof (induction ns arbitrary: p)
  case Nil
  then show ?case by simp
next
  case (Cons n ns)
  let ?A = "concat (map triangle_cells (node_triangles tris n))"
  let ?F = "concat (map triangle_cells (concat (map (node_triangles tris) ns)))"
  have len: "length ?A = 9 * leaf_count n"
    using length_concat_cells [of "\<lambda>t. t" "node_triangles tris n"] by simp
  have split: "concat (map triangle_cells (concat (map (node_triangles tris) (n # ns)))) = ?A @ ?F"
    by simp
  show ?case
  proof (cases p)
    case 0
    show ?thesis
      unfolding split 0 using len by simp
  next
    case (Suc p')
    then have p': "p' < length ns" using Cons.prems by simp
    let ?S = "sum_list (map leaf_count (take p' ns))"
    have "9 * sum_list (map leaf_count (take p (n # ns))) = length ?A + 9 * ?S"
      unfolding Suc len by simp
    then have "drop (9 * sum_list (map leaf_count (take p (n # ns)))) (?A @ ?F) = drop (9 * ?S) ?F"
      by (simp only: drop_length_plus)
    moreover have "(n # ns) ! p = ns ! p'"
      using Suc by simp
    ultimately show ?thesis
      unfolding split using Cons.IH [OF p'] by simp
  qed
qed

text \<open>
  C2 (amended): for a tree whose leaves name existing triangles (every tree the builder
  returns), the packed \<^verbatim>\<open>bvhBuffer\<close> has nine cells per node. In a leaf's record the
  two child ordinals are \<^verbatim>\<open>undefined\<close>, which \<^verbatim>\<open>maskBVHBuffer\<close> uploads as the
  integer 0, and \<open>triangleBaseIndex\<close> is the number of triangles of the earlier leaves:
  the leaf's triangles are the cells of \<^verbatim>\<open>trianglesBuffer\<close> from nine times that
  number on. In an internal node's record \<open>triangleBaseIndex\<close> is \<open>-1\<close>, also as an
  uploaded integer.
\<close>

theorem bvhBuffer_records:
  assumes "leaves_valid tris t"
  shows "\<exists>bufs tex. pack_tree tris t = Inr bufs \<and> bvh_texture tris t = Inr tex
     \<and> length (bvhBuffer bufs) = 9 * count_nodes t \<and> 9 * count_nodes t \<le> length tex
     \<and> (\<forall>p. p < count_nodes t \<and> is_leaf (preorder t ! p) \<longrightarrow>
            bvhBuffer bufs ! (9 * p) = None \<and> bvhBuffer bufs ! (9 * p + 1) = None
          \<and> bvhBuffer bufs ! (9 * p + 2) = Some (Num (real (base_index_of t p)))
          \<and> tex ! (9 * p) = IntBits 0 \<and> tex ! (9 * p + 1) = IntBits 0
          \<and> tex ! (9 * p + 2) = IntBits (word_of_nat (base_index_of t p))
          \<and> take (9 * leaf_count (preorder t ! p))
                (drop (9 * base_index_of t p) (trianglesBuffer bufs))
              = concat (map triangle_cells (node_triangles tris (preorder t ! p))))
     \<and> (\<forall>p. p < count_nodes t \<and> \<not> is_leaf (preorder t ! p) \<longrightarrow>
            bvhBuffer bufs ! (9 * p + 2) = Some (Num (- 1))
          \<and> tex ! (9 * p + 2) = IntBits (- 1))"
proof -
  from pack_tree_valid [OF assms] obtain bufs where bufs: "pack_tree tris t = Inr bufs"
    by blast
  obtain pad where pad: "padBuffer (bvhBuffer bufs) 3 3 = bvhBuffer bufs @ pad"
    using padBuffer_prefix by blast
  let ?tex = "maskBVHBuffer (bvhBuffer bufs @ pad)"
  have tex: "bvh_texture tris t = Inr ?tex"
    by (simp add: bvh_texture_def bufs pad)
  have len: "length (bvhBuffer bufs) = 9 * count_nodes t"
    by (simp add: pack_tree_Inr(1) [OF bufs] serializeTree_entries)
  have len_tex: "9 * count_nodes t \<le> length ?tex"
    using len by simp
  have cell: "bvhBuffer bufs ! (9 * p + k)
       = node_record (serializeTree t ! p) (base_index_of t p) ! k"
    if "p < count_nodes t" "k < 9" for p k
    unfolding base_index_of_def by (rule record_cells [OF bufs that])
  have tcell: "?tex ! (9 * p + k) = IntBits (ToInt32 (bvhBuffer bufs ! (9 * p + k)))"
    if "p < count_nodes t" "k < 3" for p k
  proof -
    have "9 * p + k < length (bvhBuffer bufs)"
      using that len by simp
    moreover have "(9 * p + k) mod 9 = k"
      using that(2) by simp
    ultimately show ?thesis
      using that(2) by (simp add: maskBVHBuffer_nth)
  qed
  have node: "e_node (serializeTree t ! p) = preorder t ! p" if "p < count_nodes t" for p
    using that by (simp add: serializeTree_entries preorder_nth_entries)
  have leaf: "bvhBuffer bufs ! (9 * p) = None \<and> bvhBuffer bufs ! (9 * p + 1) = None
          \<and> bvhBuffer bufs ! (9 * p + 2) = Some (Num (real (base_index_of t p)))
          \<and> ?tex ! (9 * p) = IntBits 0 \<and> ?tex ! (9 * p + 1) = IntBits 0
          \<and> ?tex ! (9 * p + 2) = IntBits (word_of_nat (base_index_of t p))
          \<and> take (9 * leaf_count (preorder t ! p))
                (drop (9 * base_index_of t p) (trianglesBuffer bufs))
              = concat (map triangle_cells (node_triangles tris (preorder t ! p)))"
    if p: "p < count_nodes t" and l: "is_leaf (preorder t ! p)" for p
  proof -
    have "is_leaf (e_node (entries_from t 0 ! p))"
      using l node [OF p] by (simp add: serializeTree_entries)
    from leaf_entry [OF p this]
    have none: "e_left (serializeTree t ! p) = None" "e_right (serializeTree t ! p) = None"
      by (simp_all add: serializeTree_entries)
    have c0: "bvhBuffer bufs ! (9 * p) = None"
      using cell [OF p, of 0] none by (simp add: node_record_def ordinal_cell_def)
    have c1: "bvhBuffer bufs ! (9 * p + 1) = None"
      using cell [OF p, of 1] none by (simp add: node_record_def ordinal_cell_def)
    have c2: "bvhBuffer bufs ! (9 * p + 2) = Some (Num (real (base_index_of t p)))"
      using cell [OF p, of 2] l node [OF p] by (simp add: node_record_def)
    have t0: "?tex ! (9 * p) = IntBits 0"
      using tcell [OF p, of 0] c0 by simp
    have t1: "?tex ! (9 * p + 1) = IntBits 0"
      using tcell [OF p, of 1] c1 by simp
    have t2: "?tex ! (9 * p + 2) = IntBits (word_of_nat (base_index_of t p))"
      using tcell [OF p, of 2] c2 by (simp only: ToInt32_nat)
    have "p < length (preorder t)"
      using p by simp
    from leaf_slice [OF this, of tris]
    have sl: "take (9 * leaf_count (preorder t ! p))
                (drop (9 * base_index_of t p) (trianglesBuffer bufs))
              = concat (map triangle_cells (node_triangles tris (preorder t ! p)))"
      by (simp only: base_index_of_def pack_tree_Inr(2) [OF bufs])
    show ?thesis
      using c0 c1 c2 t0 t1 t2 sl by blast
  qed
  have internal: "bvhBuffer bufs ! (9 * p + 2) = Some (Num (- 1))
          \<and> ?tex ! (9 * p + 2) = IntBits (- 1)"
    if p: "p < count_nodes t" and l: "\<not> is_leaf (preorder t ! p)" for p
  proof -
    have c2: "bvhBuffer bufs ! (9 * p + 2) = Some (Num (- 1))"
      using cell [OF p, of 2] l node [OF p] by (simp add: node_record_def)
    have "?tex ! (9 * p + 2) = IntBits (- 1)"
      using tcell [OF p, of 2] c2 by (simp only: ToInt32_minus_1)
    with c2 show ?thesis by blast
  qed
  show ?thesis
    using bufs tex len len_tex leaf internal by blast
qed

text \<open>
  C2, as stated, fails: in the record of the only node of the tree for the unit
  triangle, a leaf, the two child ordinals are \<^verbatim>\<open>undefined\<close> in \<^verbatim>\<open>bvhBuffer\<close> and
  the integer 0 in the uploaded texture, not \<open>-1\<close>.
\<close>

theorem leaf_child_ordinals_counterexample:
  "BVH 1 [unit_triangle] 4 = Some (Inr single_leaf)
   \<and> pack_tree [unit_triangle] single_leaf =
       Inr \<lparr> bvhBuffer = [None, None, Some (Num 0), Some (Num 0), Some (Num 0), Some (Num 0),
                Some (Num 1), Some (Num 1), Some (Num 0)],
              trianglesBuffer = [Num 0, Num 0, Num 0, Num 1, Num 0, Num 0, Num 0, Num 1, Num 0] \<rparr>
   \<and> bvh_texture [unit_triangle] single_leaf =
       Inr [IntBits 0, IntBits 0, IntBits 0, FloatVal (Num 0), FloatVal (Num 0), FloatVal (Num 0),
            FloatVal (Num 1), FloatVal (Num 1), FloatVal (Num 0)]
   \<and> (None :: jsnum option) \<noteq> Some (Num (- 1)) \<and> IntBits 0 \<noteq> IntBits (- 1)"
  using build1 pack1 tex1 by simp

lemma two_leaves_valid: "leaves_valid [unit_triangle, unit_triangle] two_leaves"
  by (simp add: two_leaves_def)

lemma two_leaves_preorder:
  "count_nodes two_leaves = 3" "is_leaf (preorder two_leaves ! 1)" "is_leaf (preorder two_leaves ! 2)"
  "\<not> is_leaf (preorder two_leaves ! 0)"
  "base_index_of two_leaves 1 = 0" "base_index_of two_leaves 2 = 1"
  by (simp_all add: two_leaves_def base_index_of_def eval_nat_numeral)

theorem bvhBuffer_records_witness:
  "leaves_valid [unit_triangle, unit_triangle] two_leaves
   \<and> (\<exists>bufs tex. pack_tree [unit_triangle, unit_triangle] two_leaves = Inr bufs
         \<and> bvh_texture [unit_triangle, unit_triangle] two_leaves = Inr tex
         \<and> bvhBuffer bufs ! 2 = Some (Num (- 1)) \<and> tex ! 2 = IntBits (- 1)
         \<and> bvhBuffer bufs ! 9 = None \<and> bvhBuffer bufs ! 10 = None
         \<and> bvhBuffer bufs ! 11 = Some (Num 0) \<and> tex ! 9 = IntBits 0
         \<and> bvhBuffer bufs ! 20 = Some (Num 1) \<and> tex ! 20 = IntBits 1)"
proof -
  note v = two_leaves_valid
  from bvhBuffer_records [OF v] obtain bufs tex where
    p: "pack_tree [unit_triangle, unit_triangle] two_leaves = Inr bufs"
      "bvh_texture [unit_triangle, unit_triangle] two_leaves = Inr tex"
    and leaf: "\<And>p. p < count_nodes two_leaves \<Longrightarrow> is_leaf (preorder two_leaves ! p) \<Longrightarrow>
            bvhBuffer bufs ! (9 * p) = None \<and> bvhBuffer bufs ! (9 * p + 1) = None
          \<and> bvhBuffer bufs ! (9 * p + 2) = Some (Num (real (base_index_of two_leaves p)))
          \<and> tex ! (9 * p) = IntBits 0 \<and> tex ! (9 * p + 1) = IntBits 0
          \<and> tex ! (9 * p + 2) = IntBits (word_of_nat (base_index_of two_leaves p))"
    and internal: "\<And>p. p < count_nodes two_leaves \<Longrightarrow> \<not> is_leaf (preorder two_leaves ! p) \<Longrightarrow>
            bvhBuffer bufs ! (9 * p + 2) = Some (Num (- 1)) \<and> tex ! (9 * p + 2) = IntBits (- 1)"
    by blast
  have "bvhBuffer bufs ! 2 = Some (Num (- 1)) \<and> tex ! 2 = IntBits (- 1)"
    using internal [of 0] two_leaves_preorder by (simp add: numeral_2_eq_2)
  moreover have "bvhBuffer bufs ! 9 = None \<and> bvhBuffer bufs ! 10 = None
         \<and> bvhBuffer bufs ! 11 = Some (Num 0) \<and> tex ! 9 = IntBits 0"
    using leaf [of 1] two_leaves_preorder by simp
  moreover have "bvhBuffer bufs ! 20 = Some (Num 1) \<and> tex ! 20 = IntBits 1"
    using leaf [of 2] two_leaves_preorder by simp
  ultimately show ?thesis
    using v p by blast
qed

lemma small_first_valid: "leaves_valid [large_triangle, small_triangle] small_first_tree"
  by (simp add: small_first_tree_def)

lemma small_first_preorder:
  "count_nodes small_first_tree = 3" "is_leaf (preorder small_first_tree ! 1)"
  "is_leaf (preorder small_first_tree ! 2)"
  "base_index_of small_first_tree 1 = 0" "base_index_of small_first_tree 2 = 1"
  "tree_slots small_first_tree = [Some 1, Some 0]"
  by (simp_all add: small_first_tree_def base_index_of_def eval_nat_numeral)

lemma build_small_first:
  "BVH 2 [large_triangle, small_triangle] 1 = Some (Inr small_first_tree)"
  by (simp add: bvh_defs small_triangle_def large_triangle_def small_first_tree_def
      eval_nat_numeral)

theorem serializeTree_preorder_witness:
  "leaves_valid [large_triangle, small_triangle] small_first_tree
   \<and> map e_node (serializeTree small_first_tree) = preorder small_first_tree
   \<and> e_left (serializeTree small_first_tree ! 0) = Some 1
   \<and> e_right (serializeTree small_first_tree ! 0) = Some 2
   \<and> (\<exists>bufs. pack_tree [large_triangle, small_triangle] small_first_tree = Inr bufs
         \<and> trianglesBuffer bufs
             = [Num 15, Num 0, Num 0, Num 16, Num 0, Num 0, Num 15, Num 1, Num 0,
                Num 0, Num 12, Num 0, Num 4, Num 12, Num 0, Num 0, Num 16, Num 0]
         \<and> bvhBuffer bufs ! 11 = Some (Num 0) \<and> bvhBuffer bufs ! 20 = Some (Num 1))"
proof -
  let ?tris = "[large_triangle, small_triangle]"
  note v = small_first_valid
  note t = serializeTree_preorder [OF v]
  have a: "map e_node (serializeTree small_first_tree) = preorder small_first_tree"
    and root0: "e_node (serializeTree small_first_tree ! 0) = small_first_tree"
    using t by blast+
  have int: "\<And>p box sp l r. p < count_nodes small_first_tree \<Longrightarrow>
      e_node (serializeTree small_first_tree ! p) = Internal box sp l r \<Longrightarrow>
            e_left (serializeTree small_first_tree ! p) = Some (int p + 1)
          \<and> e_right (serializeTree small_first_tree ! p) = Some (int p + 1 + int (count_nodes l))"
    using t by blast
  have lr: "e_left (serializeTree small_first_tree ! 0) = Some 1
      \<and> e_right (serializeTree small_first_tree ! 0) = Some 2"
    using int [of 0] root0 by (simp add: small_first_tree_def)
  from t obtain bufs where p: "pack_tree ?tris small_first_tree = Inr bufs"
    and tb: "trianglesBuffer bufs
              = concat (map (\<lambda>s. case verts (?tris ! the s) of
                                ((x0, y0, z0), (x1, y1, z1), (x2, y2, z2)) \<Rightarrow>
                                  [x0, y0, z0, x1, y1, z1, x2, y2, z2]) (tree_slots small_first_tree))"
    and base: "\<And>p. p < count_nodes small_first_tree \<Longrightarrow> is_leaf (preorder small_first_tree ! p) \<Longrightarrow>
                bvhBuffer bufs ! (9 * p + 2)
                  = Some (Num (real (sum_list (map leaf_count (take p (preorder small_first_tree))))))"
    by blast
  have cells: "trianglesBuffer bufs
             = [Num 15, Num 0, Num 0, Num 16, Num 0, Num 0, Num 15, Num 1, Num 0,
                Num 0, Num 12, Num 0, Num 4, Num 12, Num 0, Num 0, Num 16, Num 0]"
    unfolding tb small_first_preorder(6)
    by (simp add: small_triangle_def large_triangle_def Triangle_def Let_def)
  have "bvhBuffer bufs ! 11 = Some (Num 0)"
    using base [of 1] small_first_preorder by (simp add: base_index_of_def)
  moreover have "bvhBuffer bufs ! 20 = Some (Num 1)"
    using base [of 2] small_first_preorder by (simp add: base_index_of_def)
  ultimately show ?thesis
    using v a lr p cells by blast
qed

section \<open>The builder\<close>

lemma elem3_tabulate: "b < 3 \<Longrightarrow> elem3 (f 0, f 1, f 2) b = f b"
  by (cases b; simp) (metis One_nat_def less_2_cases_iff not_less_eq numeral_3_eq_3 numeral_2_eq_2 less_Suc_eq)

lemma wf_indices_axis:
  assumes "wf_indices tris idxs" "b < 3"
  shows "mset (elem3 idxs b) = mset (elem3 idxs 0)"
proof -
  have "b = 0 \<or> b = 1 \<or> b = 2" using assms(2) by auto
  then show ?thesis using assms(1) by (auto simp: wf_indices_def)
qed

lemma wf_indices_distinct:
  assumes "wf_indices tris idxs" "b < 3"
  shows "distinct (elem3 idxs b)"
  using wf_indices_axis [OF assms] assms(1)
  by (metis wf_indices_def mset_eq_imp_distinct_iff)

lemma wf_indices_same:
  assumes "wf_indices tris idxs" "a < 3" "b < 3"
  shows "mset (elem3 idxs a) = mset (elem3 idxs b)"
  using wf_indices_axis [OF assms(1,2)] wf_indices_axis [OF assms(1,3)] by simp

lemma wf_indices_valid:
  assumes "wf_indices tris idxs"
  shows "indices_valid tris idxs"
proof -
  have v0: "\<forall>idx\<in>set (elem3 idxs 0). lookup tris idx \<noteq> None"
    using assms by (simp add: wf_indices_def list_all_iff)
  have "set (elem3 idxs 1) = set (elem3 idxs 0)" "set (elem3 idxs 2) = set (elem3 idxs 0)"
    using assms by (auto simp: wf_indices_def dest: mset_eq_setD)
  then show ?thesis
    using v0 by (simp add: indices_valid_def list_all_iff)
qed

lemma js_set_fill:
  "js_set (done @ replicate m None) (length done) v = done @ [v] @ replicate (m - 1) None"
proof (cases m)
  case 0
  then show ?thesis by (simp add: js_set_def)
next
  case (Suc m')
  then show ?thesis by (simp add: js_set_def list_update_append)
qed

lemma scan_axis_closed:
  "scan_axis S xs (dl @ replicate m None, length dl, dr @ replicate n None, length dr)
   = (dl @ filter (\<lambda>x. x \<in> S) xs @ replicate (m - length (filter (\<lambda>x. x \<in> S) xs)) None,
      length dl + length (filter (\<lambda>x. x \<in> S) xs),
      dr @ filter (\<lambda>x. x \<notin> S) xs @ replicate (n - length (filter (\<lambda>x. x \<notin> S) xs)) None,
      length dr + length (filter (\<lambda>x. x \<notin> S) xs))"
proof (induction xs arbitrary: dl m dr n)
  case Nil
  then show ?case by simp
next
  case (Cons x xs)
  show ?case
  proof (cases "x \<in> S")
    case True
    have "scan_axis S (x # xs) (dl @ replicate m None, length dl, dr @ replicate n None, length dr)
        = scan_axis S xs ((dl @ [x]) @ replicate (m - 1) None, length (dl @ [x]),
            dr @ replicate n None, length dr)"
      using True by (simp add: js_set_fill)
    also note Cons.IH [of "dl @ [x]" "m - 1" dr n]
    finally show ?thesis using True by simp
  next
    case False
    have "scan_axis S (x # xs) (dl @ replicate m None, length dl, dr @ replicate n None, length dr)
        = scan_axis S xs (dl @ replicate m None, length dl,
            (dr @ [x]) @ replicate (n - 1) None, length (dr @ [x]))"
      using False by (simp add: js_set_fill)
    also note Cons.IH [of dl m "dr @ [x]" "n - 1"]
    finally show ?thesis using False by simp
  qed
qed

lemma scan_axis_prealloc:
  "scan_axis S xs (replicate m None, 0, replicate n None, 0)
   = (filter (\<lambda>x. x \<in> S) xs @ replicate (m - length (filter (\<lambda>x. x \<in> S) xs)) None,
      length (filter (\<lambda>x. x \<in> S) xs),
      filter (\<lambda>x. x \<notin> S) xs @ replicate (n - length (filter (\<lambda>x. x \<notin> S) xs)) None,
      length (filter (\<lambda>x. x \<notin> S) xs))"
  using scan_axis_closed [of S xs "[]" m "[]" n] by simp

lemma filter_in_prefix:
  "set as \<inter> set bs = {} \<Longrightarrow> filter (\<lambda>x. x \<in> set as) (as @ bs) = as"
  by (auto simp: filter_empty_conv)

lemma filter_notin_prefix:
  "set as \<inter> set bs = {} \<Longrightarrow> filter (\<lambda>x. x \<notin> set as) (as @ bs) = bs"
  by (auto simp: filter_empty_conv filter_id_conv)

lemma take_drop_disjoint: "distinct xs \<Longrightarrow> set (take k xs) \<inter> set (drop k xs) = {}"
  by (metis append_take_drop_id distinct_append)

lemma filter_in_take: "distinct xs \<Longrightarrow> filter (\<lambda>x. x \<in> set (take k xs)) xs = take k xs"
  using filter_in_prefix [OF take_drop_disjoint, of xs k] by simp

lemma filter_notin_take: "distinct xs \<Longrightarrow> filter (\<lambda>x. x \<notin> set (take k xs)) xs = drop k xs"
  using filter_notin_prefix [OF take_drop_disjoint, of xs k] by simp

lemma mset_filter_perm:
  assumes "mset ys = mset xs"
  shows "mset (filter P ys) = mset (filter P xs)"
  using assms by (metis mset_filter)

lemma partition_perm:
  assumes "mset ys = mset xs" "distinct xs"
  shows "mset (filter (\<lambda>x. x \<in> set (take k xs)) ys) = mset (take k xs)"
    and "mset (filter (\<lambda>x. x \<notin> set (take k xs)) ys) = mset (drop k xs)"
    and "length (filter (\<lambda>x. x \<in> set (take k xs)) ys) = length (take k xs)"
    and "length (filter (\<lambda>x. x \<notin> set (take k xs)) ys) = length (drop k xs)"
proof -
  show l: "mset (filter (\<lambda>x. x \<in> set (take k xs)) ys) = mset (take k xs)"
    using mset_filter_perm [OF assms(1)] filter_in_take [OF assms(2)] by metis
  show r: "mset (filter (\<lambda>x. x \<notin> set (take k xs)) ys) = mset (drop k xs)"
    using mset_filter_perm [OF assms(1)] filter_notin_take [OF assms(2)] by metis
  show "length (filter (\<lambda>x. x \<in> set (take k xs)) ys) = length (take k xs)"
    using l by (rule mset_eq_length)
  show "length (filter (\<lambda>x. x \<notin> set (take k xs)) ys) = length (drop k xs)"
    using r by (rule mset_eq_length)
qed

lemma constructCachedIndexList_closed:
  assumes "wf_indices tris idxs" "a < 3"
  shows "constructCachedIndexList idxs (Some (a, k))
     = Inr ((left_part idxs a k 0, left_part idxs a k 1, left_part idxs a k 2),
            (right_part idxs a k 0, right_part idxs a k 1, right_part idxs a k 2))"
proof -
  let ?Ia = "elem3 idxs a"
  have da: "distinct ?Ia"
    using wf_indices_distinct [OF assms] .
  have m: "mset (elem3 idxs b) = mset ?Ia" if "b < 3" for b
    using wf_indices_same [OF assms(1) that assms(2)] .
  have m0: "mset (elem3 idxs 0) = mset ?Ia" and m1: "mset (elem3 idxs 1) = mset ?Ia"
    and m2: "mset (elem3 idxs 2) = mset ?Ia"
    using m by simp_all
  note lens = partition_perm(3,4) [OF m0 da, of k] partition_perm(3,4) [OF m1 da, of k]
    partition_perm(3,4) [OF m2 da, of k]
  have "a = 0 \<or> a = 1 \<or> a = 2"
    using assms(2) by auto
  then show ?thesis
  proof (elim disjE)
    assume a: "a = 0"
    show ?thesis
      using lens da unfolding a
      by (simp add: constructCachedIndexList_def Let_def scan_axis_prealloc left_part_def
          right_part_def filter_in_take filter_notin_take)
  next
    assume a: "a = 1"
    show ?thesis
      using lens da unfolding a
      by (simp add: constructCachedIndexList_def Let_def scan_axis_prealloc left_part_def
          right_part_def filter_in_take filter_notin_take)
  next
    assume a: "a = 2"
    show ?thesis
      using lens da unfolding a
      by (simp add: constructCachedIndexList_def Let_def scan_axis_prealloc left_part_def
          right_part_def filter_in_take filter_notin_take)
  qed
qed

lemma parts_split_axis:
  assumes "wf_indices tris idxs" "a < 3"
  shows "left_part idxs a k a = take k (elem3 idxs a)"
    and "right_part idxs a k a = drop k (elem3 idxs a)"
  using wf_indices_distinct [OF assms]
  by (simp_all add: left_part_def right_part_def filter_in_take filter_notin_take)

lemma parts_mset:
  assumes "wf_indices tris idxs" "a < 3" "b < 3"
  shows "mset (left_part idxs a k b) = mset (take k (elem3 idxs a))"
    and "mset (right_part idxs a k b) = mset (drop k (elem3 idxs a))"
  unfolding left_part_def right_part_def
  using partition_perm(1,2) [OF wf_indices_same [OF assms(1,3,2)] wf_indices_distinct [OF assms(1,2)]]
  by simp_all

lemma parts_disjoint: "set (left_part idxs a k b) \<inter> set (right_part idxs a k b) = {}"
  by (auto simp: left_part_def right_part_def)

lemma parts_union: "set (left_part idxs a k b) \<union> set (right_part idxs a k b) = set (elem3 idxs b)"
  by (auto simp: left_part_def right_part_def)

lemma parts_mset_union:
  "mset (left_part idxs a k b) + mset (right_part idxs a k b) = mset (elem3 idxs b)"
  by (simp add: left_part_def right_part_def)

lemma parts_subseq:
  "subseq (left_part idxs a k b) (elem3 idxs b)" "subseq (right_part idxs a k b) (elem3 idxs b)"
  by (simp_all add: left_part_def right_part_def)

lemma wf_left_part:
  assumes "wf_indices tris idxs" "a < 3"
  shows "wf_indices tris (left_part idxs a k 0, left_part idxs a k 1, left_part idxs a k 2)"
proof -
  have d: "distinct (left_part idxs a k 0)"
    using wf_indices_distinct [OF assms(1), of 0] by (simp add: left_part_def)
  have v: "list_all (\<lambda>idx. lookup tris idx \<noteq> None) (left_part idxs a k 0)"
    using assms(1) by (simp add: wf_indices_def left_part_def list_all_iff)
  show ?thesis
    using d v parts_mset(1) [OF assms, of 0 k] parts_mset(1) [OF assms, of 1 k]
      parts_mset(1) [OF assms, of 2 k]
    by (simp add: wf_indices_def)
qed

lemma wf_right_part:
  assumes "wf_indices tris idxs" "a < 3"
  shows "wf_indices tris (right_part idxs a k 0, right_part idxs a k 1, right_part idxs a k 2)"
proof -
  have d: "distinct (right_part idxs a k 0)"
    using wf_indices_distinct [OF assms(1), of 0] by (simp add: right_part_def)
  have v: "list_all (\<lambda>idx. lookup tris idx \<noteq> None) (right_part idxs a k 0)"
    using assms(1) by (simp add: wf_indices_def right_part_def list_all_iff)
  show ?thesis
    using d v parts_mset(2) [OF assms, of 0 k] parts_mset(2) [OF assms, of 1 k]
      parts_mset(2) [OF assms, of 2 k]
    by (simp add: wf_indices_def)
qed

lemma constructCachedIndexList_Inr:
  assumes "constructCachedIndexList idxs sp = Inr (L, R)"
  shows "\<exists>a k. sp = Some (a, k) \<and> a < 3"
  using assms by (auto simp: constructCachedIndexList_def split: option.splits if_splits)

lemma mset_insert_index: "mset (insert_index tris axis i js) = add_mset i (mset js)"
  by (induction js) simp_all

lemma mset_sortIndices: "mset (sortIndices tris ixs axis) = mset ixs"
  by (induction ixs) (simp_all add: sortIndices_def mset_insert_index)

lemma wf_initial_indices: "wf_indices tris (initial_indices tris)"
proof -
  let ?n = "length tris"
  have m: "mset (map Some (sortIndices tris [0..<?n] axis)) = mset (map Some [0..<?n])" for axis
    using mset_sortIndices [of tris "[0..<?n]" axis] by (metis mset_map)
  have "distinct (map Some [0..<?n])"
    by (simp add: distinct_map)
  then have d: "distinct (map Some (sortIndices tris [0..<?n] 0))"
    using m [of 0] by (metis mset_eq_imp_distinct_iff)
  have "set (sortIndices tris [0..<?n] 0) = set [0..<?n]"
    using mset_sortIndices [of tris "[0..<?n]" 0] by (rule mset_eq_setD)
  then have v: "list_all (\<lambda>idx. lookup tris idx \<noteq> None) (map Some (sortIndices tris [0..<?n] 0))"
    by (simp add: list_all_iff)
  show ?thesis
    using d v m by (simp add: wf_indices_def initial_indices_def)
qed

lemma builder_call_wf:
  assumes "builder_call tris maxTriangles start idxs" "wf_indices tris start"
  shows "wf_indices tris idxs"
  using assms
proof (induction rule: builder_call.induct)
  case call_top
  then show ?case by simp
next
  case (call_left idxs box sp leftIndices rightIndices)
  then have wf: "wf_indices tris idxs" by simp
  from constructCachedIndexList_Inr [OF call_left.hyps(4)]
  obtain a k where sp: "sp = Some (a, k)" "a < 3" by blast
  show ?case
    using call_left.hyps(4) constructCachedIndexList_closed [OF wf sp(2), of k] wf_left_part [OF wf sp(2), of k]
    by (simp add: sp(1))
next
  case (call_right idxs box sp leftIndices rightIndices)
  then have wf: "wf_indices tris idxs" by simp
  from constructCachedIndexList_Inr [OF call_right.hyps(4)]
  obtain a k where sp: "sp = Some (a, k)" "a < 3" by blast
  show ?case
    using call_right.hyps(4) constructCachedIndexList_closed [OF wf sp(2), of k] wf_right_part [OF wf sp(2), of k]
    by (simp add: sp(1))
qed

lemma buildTree_Suc_Inr:
  assumes "buildTree (Suc fuel) tris maxTriangles idxs = Some (Inr t)"
  obtains (leaf) box sp where "new_Node tris idxs = Inr (box, sp)"
      "length (elem3 idxs (case sp of None \<Rightarrow> 0 | Some (splitAxis, splitIndex) \<Rightarrow> splitAxis))
         \<le> maxTriangles"
      "t = Leaf box sp idxs"
  | (internal) box sp leftIndices rightIndices l r where "new_Node tris idxs = Inr (box, sp)"
      "\<not> length (elem3 idxs (case sp of None \<Rightarrow> 0 | Some (splitAxis, splitIndex) \<Rightarrow> splitAxis))
         \<le> maxTriangles"
      "constructCachedIndexList idxs sp = Inr (leftIndices, rightIndices)"
      "buildTree fuel tris maxTriangles leftIndices = Some (Inr l)"
      "buildTree fuel tris maxTriangles rightIndices = Some (Inr r)"
      "t = Internal box sp l r"
  using assms
  by (auto split: sum.splits option.splits if_splits prod.splits)

lemma buildTree_slots:
  "buildTree fuel tris maxTriangles idxs = Some (Inr t) \<Longrightarrow> wf_indices tris idxs \<Longrightarrow>
   mset (tree_slots t) = mset (elem3 idxs 0) \<and> leaves_valid tris t"
proof (induction fuel arbitrary: idxs t)
  case 0
  then show ?case by simp
next
  case (Suc fuel)
  from Suc.prems(1) show ?case
  proof (cases rule: buildTree_Suc_Inr)
    case (leaf box sp)
    then show ?thesis using Suc.prems(2) by (simp add: wf_indices_def)
  next
    case (internal box sp leftIndices rightIndices l r)
    from constructCachedIndexList_Inr [OF internal(3)]
    obtain a k where sp: "sp = Some (a, k)" "a < 3" by blast
    note wf = Suc.prems(2)
    have L: "leftIndices = (left_part idxs a k 0, left_part idxs a k 1, left_part idxs a k 2)"
      and R: "rightIndices = (right_part idxs a k 0, right_part idxs a k 1, right_part idxs a k 2)"
      using internal(3) constructCachedIndexList_closed [OF wf sp(2), of k] by (simp_all add: sp(1))
    have wl: "wf_indices tris leftIndices" and wr: "wf_indices tris rightIndices"
      unfolding L R using wf_left_part [OF wf sp(2)] wf_right_part [OF wf sp(2)] by simp_all
    from Suc.IH [OF internal(4) wl] Suc.IH [OF internal(5) wr]
    have "mset (tree_slots l) = mset (left_part idxs a k 0)"
      "mset (tree_slots r) = mset (right_part idxs a k 0)"
      "leaves_valid tris l" "leaves_valid tris r"
      by (simp_all add: L R)
    then show ?thesis
      using internal(6) parts_mset_union [of idxs a k 0] by simp
  qed
qed

lemma BVH_slots:
  assumes "BVH fuel tris maxTris = Some (Inr t)"
  shows "mset (tree_slots t) = mset (map Some [0..<length tris])" "distinct (tree_slots t)"
    "leaves_valid tris t"
proof -
  have b: "buildTree fuel tris maxTris (initial_indices tris) = Some (Inr t)"
    using assms by (simp add: BVH_initial_indices)
  from buildTree_slots [OF b wf_initial_indices]
  have m: "mset (tree_slots t) = mset (elem3 (initial_indices tris) 0)" and v: "leaves_valid tris t"
    by simp_all
  have "mset (elem3 (initial_indices tris) 0) = mset (map Some [0..<length tris])"
    using mset_sortIndices [of tris "[0..<length tris]" 0]
    by (simp add: initial_indices_def)
  with m show m': "mset (tree_slots t) = mset (map Some [0..<length tris])"
    by simp
  have "distinct (map Some [0..<length tris])"
    by (simp add: distinct_map)
  then show "distinct (tree_slots t)"
    using m' by (metis mset_eq_imp_distinct_iff)
  show "leaves_valid tris t" by (rule v)
qed


lemma two_triangle_split:
  "constructCachedIndexList ([Some 1, Some 0], [Some 0, Some 1], [Some 0, Some 1]) (Some (1, 1))
     = Inr (([Some 0], [Some 0], [Some 0]), ([Some 1], [Some 1], [Some 1]))"
  by (simp add: constructCachedIndexList_def js_set_def Let_def)

lemma two_triangle_tree:
  "BVH 2 [small_triangle, large_triangle] 1 =
     Some (Inr (Internal \<lparr> bb_min = (Num 0, Num 0, Num 0), bb_max = (Num 16, Num 16, Num 0) \<rparr>
       (Some (1, 1))
       (Leaf \<lparr> bb_min = (Num 15, Num 0, Num 0), bb_max = (Num 16, Num 1, Num 0) \<rparr>
          (Some (0, 1)) ([Some 0], [Some 0], [Some 0]))
       (Leaf \<lparr> bb_min = (Num 0, Num 12, Num 0), bb_max = (Num 4, Num 16, Num 0) \<rparr>
          (Some (0, 1)) ([Some 1], [Some 1], [Some 1]))))"
  by (simp add: bvh_defs small_triangle_def large_triangle_def eval_nat_numeral)


lemma segment_triangle_box: "boundingBox segment_triangle = segment_box"
  by (simp add: segment_triangle_def segment_box_def Triangle_def addTriangle_def addVertex_def
      BoundingBox_def jmin_def jmax_def Let_def)

lemma segment_triangle_add: "addTriangle segment_triangle segment_box = segment_box"
  "addTriangle segment_triangle BoundingBox = segment_box"
  by (simp_all add: segment_triangle_def segment_box_def Triangle_def addTriangle_def addVertex_def
      BoundingBox_def jmin_def jmax_def Let_def)

lemma segment_box_add: "addBoundingBox segment_box segment_box = segment_box"
  "addBoundingBox segment_box BoundingBox = segment_box"
  by (simp_all add: segment_box_def addBoundingBox_def BoundingBox_def jmin_def jmax_def)

lemma segment_box_area: "getSurfaceArea segment_box = Num 0"
  by (simp add: segment_box_def getSurfaceArea_def jsub_def Let_def)

lemma segment_key:
  "i < n \<Longrightarrow> centroid_key (replicate n segment_triangle) axis i
     = elem3 (centroid segment_box) axis"
  by (simp add: centroid_key_def segment_triangle_box)

lemma insert_index_same:
  assumes "\<forall>j\<in>set js. \<not> jlt (centroid_key tris axis j) (centroid_key tris axis i)"
  shows "insert_index tris axis i js = i # js"
  using assms by (cases js) simp_all

lemma sortIndices_same:
  assumes "\<forall>i\<in>set ixs. centroid_key tris axis i = c"
  shows "sortIndices tris ixs axis = ixs"
  using assms
proof (induction ixs)
  case Nil
  show ?case by (simp add: sortIndices_def)
next
  case (Cons i ixs)
  have rest: "\<forall>j\<in>set ixs. centroid_key tris axis j = c"
    and own: "centroid_key tris axis i = c"
    using Cons.prems by simp_all
  have ih: "sortIndices tris ixs axis = ixs"
    using Cons.IH [OF rest] .
  have "\<forall>j\<in>set ixs. \<not> jlt (centroid_key tris axis j) (centroid_key tris axis i)"
    unfolding own using rest by (simp add: jlt_irrefl)
  then have ins: "insert_index tris axis i ixs = i # ixs"
    by (rule insert_index_same)
  have "sortIndices tris (i # ixs) axis = insert_index tris axis i (sortIndices tris ixs axis)"
    by (simp add: sortIndices_def)
  then show ?case
    unfolding ih ins .
qed

lemma segment_indices:
  "initial_indices (replicate n segment_triangle)
     = (map Some [0..<n], map Some [0..<n], map Some [0..<n])"
proof -
  have "sortIndices (replicate n segment_triangle) [0..<n] axis = [0..<n]" for axis
    by (rule sortIndices_same [where c = "elem3 (centroid segment_box) axis"])
      (simp add: segment_key)
  then show ?thesis by (simp add: initial_indices_def)
qed

lemma segment_addNode:
  assumes "\<forall>i\<in>set ixs. i < n" "b = BoundingBox \<and> ixs \<noteq> [] \<or> b = segment_box"
  shows "addNode (replicate n segment_triangle) (map Some ixs) b = Inr segment_box"
  using assms
proof (induction ixs arbitrary: b)
  case Nil
  then show ?case by simp
next
  case (Cons i ixs)
  have "addTriangle segment_triangle b = segment_box"
    using Cons.prems(2) segment_triangle_add by auto
  then show ?case using Cons.IH [of segment_box] Cons.prems(1) by simp
qed

lemma segment_surfaces:
  assumes "b = BoundingBox \<or> b = segment_box"
  shows "surfaces b (replicate m segment_box) = replicate m (Num 0)"
  using assms
proof (induction m arbitrary: b)
  case 0
  then show ?case by simp
next
  case (Suc m)
  have "addBoundingBox segment_box b = segment_box"
    using Suc.prems segment_box_add by auto
  then show ?case using Suc.IH [of segment_box] by (simp add: segment_box_area)
qed

lemma segment_boxes:
  "map (\<lambda>idx. boundingBox (the (lookup (replicate n segment_triangle) idx))) (map Some [0..<n])
     = replicate n segment_box"
  by (rule nth_equalityI) (simp_all add: segment_triangle_box)

lemma segment_cost:
  assumes "i < m"
  shows "split_cost (Num 0) (replicate m (Num 0)) (replicate m (Num 0)) i = NaN"
  using assms by (simp add: split_cost_def Let_def)

lemma segment_search:
  assumes "\<forall>i\<in>set xs. i < m"
  shows "foldl (try_split (Num 0) (replicate m (Num 0)) (replicate m (Num 0)) axis) st xs = st"
  using assms by (induction xs) (simp_all add: try_split_def segment_cost)

lemma segment_setSplit_axis:
  "setSplit_axis (replicate n segment_triangle)
      (map Some [0..<n], map Some [0..<n], map Some [0..<n]) (Num 0) st axis = Inr st"
proof -
  have e: "elem3 (map Some [0..<n], map Some [0..<n], map Some [0..<n]) axis = map Some [0..<n]"
    by simp
  have v: "None \<notin> lookup (replicate n segment_triangle) ` set (map Some [0..<n])"
    by auto
  show ?thesis
    unfolding setSplit_axis_def Let_def e segment_boxes
    using v by (simp add: segment_surfaces segment_search)
qed

lemma segment_node:
  assumes "0 < n"
  shows "new_Node (replicate n segment_triangle)
      (map Some [0..<n], map Some [0..<n], map Some [0..<n]) = Inr (segment_box, None)"
proof -
  have "[0..<n] \<noteq> []" using assms by simp
  then have a: "addNode (replicate n segment_triangle) (map Some [0..<n]) BoundingBox
      = Inr segment_box"
    using segment_addNode [of "[0..<n]" n BoundingBox] by simp
  show ?thesis
    by (simp add: new_Node_def a setSplit_def segment_box_area segment_setSplit_axis)
qed

lemma segment_build:
  assumes "maxTris < n"
  shows "BVH (Suc fuel) (replicate n segment_triangle) maxTris = Some (Inl TypeError)"
proof -
  have n: "0 < n" using assms by simp
  show ?thesis
    using assms
    by (simp add: BVH_initial_indices segment_indices segment_node [OF n]
        constructCachedIndexList_def)
qed

text \<open>
  C5: the builder is not total. For five triangles on a segment of the x axis and
  \<open>leafSize = 4\<close> the box of the root has surface area 0, every cost of \<^verbatim>\<open>setSplit\<close> is
  \<open>0 / 0 = NaN\<close>, no cost is below \<^verbatim>\<open>bestCost\<close> and \<^verbatim>\<open>splitAxis\<close> stays undefined. The
  leaf test reads \<^verbatim>\<open>root.splitAxis || 0\<close> and finds five triangles, more than four, so
  \<^verbatim>\<open>_constructCachedIndexList\<close> is called with the undefined axis and throws, at
  whatever depth the recursion is allowed.
\<close>

theorem builder_throws_on_flat_box:
  "BVH (Suc fuel) (replicate 5 segment_triangle) 4 = Some (Inl TypeError)"
  using segment_build [of 4 5 fuel] by simp

section \<open>The autofocus ray\<close>

lemmas ray_defs =
  rayTriangleIntersect_def mt_det_def mt_u_def mt_v_def mt_t_def unit_triangle_def
  Triangle_def Let_def jsub_def epsilon_def maxT_def

text \<open>
  C8, as stated, fails: a ray that strikes the back face of the unit triangle (from
  \<open>(0.25, 0.25, -1)\<close> along \<open>+z\<close>; the determinant is \<open>-1\<close>) is not rejected. The
  function returns the distance 1, not the sentinel.
\<close>

theorem back_face_hit_counterexample:
  "mt_det (Num 0, Num 0, Num 1) unit_triangle = Num (- 1)
   \<and> rayTriangleIntersect (Num 0.25, Num 0.25, Num (- 1)) (Num 0, Num 0, Num 1) unit_triangle = Num 1
   \<and> Num 1 \<noteq> maxT"
  by (simp add: ray_defs)

text \<open>
  C8 (amended): \<open>rayTriangleIntersect\<close> returns the sentinel \<open>maxT\<close> when the
  determinant lies strictly between \<open>-\<epsilon>\<close> and \<open>\<epsilon>\<close> (the ray is parallel, or nearly
  parallel, to the triangle's plane), when \<open>u < 0\<close>, \<open>u > 1\<close>, \<open>v < 0\<close> or \<open>u + v > 1\<close>,
  or when \<open>t > \<epsilon>\<close> does not hold; otherwise it returns \<open>t\<close>. The sign of the
  determinant is not tested: a hit on the back face (determinant \<open>\<le> -\<epsilon>\<close>) returns \<open>t\<close>
  like one on the front face.
\<close>

theorem rayTriangleIntersect_cases:
  "rayTriangleIntersect eye dir tri =
     (if jlt (jneg epsilon) (mt_det dir tri) \<and> jlt (mt_det dir tri) epsilon then maxT
      else if jlt (mt_u eye dir tri) (Num 0) \<or> jlt (Num 1) (mt_u eye dir tri) then maxT
      else if jlt (mt_v eye dir tri) (Num 0)
              \<or> jlt (Num 1) (jadd (mt_u eye dir tri) (mt_v eye dir tri)) then maxT
      else if jlt epsilon (mt_t eye dir tri) then mt_t eye dir tri
      else maxT)
   \<and> (jle (mt_det dir tri) (jneg epsilon)
        \<and> jle (Num 0) (mt_u eye dir tri) \<and> jle (Num 0) (mt_v eye dir tri)
        \<and> jle (jadd (mt_u eye dir tri) (mt_v eye dir tri)) (Num 1)
        \<and> jlt epsilon (mt_t eye dir tri) \<longrightarrow>
      rayTriangleIntersect eye dir tri = mt_t eye dir tri)"
proof -
  have cases: "rayTriangleIntersect eye dir tri =
     (if jlt (jneg epsilon) (mt_det dir tri) \<and> jlt (mt_det dir tri) epsilon then maxT
      else if jlt (mt_u eye dir tri) (Num 0) \<or> jlt (Num 1) (mt_u eye dir tri) then maxT
      else if jlt (mt_v eye dir tri) (Num 0)
              \<or> jlt (Num 1) (jadd (mt_u eye dir tri) (mt_v eye dir tri)) then maxT
      else if jlt epsilon (mt_t eye dir tri) then mt_t eye dir tri
      else maxT)"
    by (simp add: rayTriangleIntersect_def mt_det_def mt_u_def mt_v_def mt_t_def Let_def
        split: prod.splits)
  have back_face: "rayTriangleIntersect eye dir tri = mt_t eye dir tri"
    if "jle (mt_det dir tri) (jneg epsilon)" "jle (Num 0) (mt_u eye dir tri)"
      "jle (Num 0) (mt_v eye dir tri)"
      "jle (jadd (mt_u eye dir tri) (mt_v eye dir tri)) (Num 1)"
      "jlt epsilon (mt_t eye dir tri)"
  proof -
    have "\<not> jlt (jneg epsilon) (mt_det dir tri)"
      using that(1) by (rule jle_not_jlt)
    moreover have "\<not> jlt (mt_u eye dir tri) (Num 0)" "\<not> jlt (mt_v eye dir tri) (Num 0)"
      "\<not> jlt (Num 1) (jadd (mt_u eye dir tri) (mt_v eye dir tri))"
      using that(2,3,4) by (simp_all add: jle_not_jlt)
    moreover have "\<not> jlt (Num 1) (mt_u eye dir tri)"
      using that(2,3,4) by (rule barycentric_u_le_1)
    ultimately show ?thesis
      using that(5) by (simp add: cases)
  qed
  show ?thesis
    using cases back_face by blast
qed

theorem rayTriangleIntersect_cases_witness:
  "jle (mt_det (Num 0, Num 0, Num 1) unit_triangle) (jneg epsilon)
   \<and> jle (Num 0) (mt_u (Num 0.25, Num 0.25, Num (- 1)) (Num 0, Num 0, Num 1) unit_triangle)
   \<and> jle (Num 0) (mt_v (Num 0.25, Num 0.25, Num (- 1)) (Num 0, Num 0, Num 1) unit_triangle)
   \<and> jle (jadd (mt_u (Num 0.25, Num 0.25, Num (- 1)) (Num 0, Num 0, Num 1) unit_triangle)
           (mt_v (Num 0.25, Num 0.25, Num (- 1)) (Num 0, Num 0, Num 1) unit_triangle)) (Num 1)
   \<and> jlt epsilon (mt_t (Num 0.25, Num 0.25, Num (- 1)) (Num 0, Num 0, Num 1) unit_triangle)
   \<and> rayTriangleIntersect (Num 0.25, Num 0.25, Num (- 1)) (Num 0, Num 0, Num 1) unit_triangle
       = mt_t (Num 0.25, Num 0.25, Num (- 1)) (Num 0, Num 0, Num 1) unit_triangle
   \<and> mt_t (Num 0.25, Num 0.25, Num (- 1)) (Num 0, Num 0, Num 1) unit_triangle = Num 1"
proof -
  have h: "jle (mt_det (Num 0, Num 0, Num 1) unit_triangle) (jneg epsilon)"
    "jle (Num 0) (mt_u (Num 0.25, Num 0.25, Num (- 1)) (Num 0, Num 0, Num 1) unit_triangle)"
    "jle (Num 0) (mt_v (Num 0.25, Num 0.25, Num (- 1)) (Num 0, Num 0, Num 1) unit_triangle)"
    "jle (jadd (mt_u (Num 0.25, Num 0.25, Num (- 1)) (Num 0, Num 0, Num 1) unit_triangle)
           (mt_v (Num 0.25, Num 0.25, Num (- 1)) (Num 0, Num 0, Num 1) unit_triangle)) (Num 1)"
    "jlt epsilon (mt_t (Num 0.25, Num 0.25, Num (- 1)) (Num 0, Num 0, Num 1) unit_triangle)"
    "mt_t (Num 0.25, Num 0.25, Num (- 1)) (Num 0, Num 0, Num 1) unit_triangle = Num 1"
    by (simp_all add: mt_det_def mt_u_def mt_v_def mt_t_def unit_triangle_def Triangle_def
        jsub_def epsilon_def)
  show ?thesis
    using h rayTriangleIntersect_cases
      [where eye = "(Num 0.25, Num 0.25, Num (- 1))" and dir = "(Num 0, Num 0, Num 1)"
         and tri = unit_triangle]
    by blast
qed

lemma rayTriangleIntersect_range:
  "rayTriangleIntersect eye dir tri = maxT \<or> jlt epsilon (rayTriangleIntersect eye dir tri)"
  by (simp add: rayTriangleIntersect_def Let_def split: prod.splits)

lemma jmin_cases: "a \<noteq> NaN \<Longrightarrow> b \<noteq> NaN \<Longrightarrow> jmin a b = a \<or> jmin a b = b"
  by (simp add: jmin_def)

lemma jmin_same [simp]: "jmin a a = a"
  by (cases a) (simp_all add: jmin_def)

lemma nearest_result:
  "nearest eye dir ts res = Inr d \<Longrightarrow>
   None \<notin> set ts \<and> (d = res \<or> (jlt d res \<and> (\<exists>t. Some t \<in> set ts \<and> d = rayTriangleIntersect eye dir t)))"
proof (induction ts arbitrary: res)
  case Nil
  then show ?case by simp
next
  case (Cons x ts)
  show ?case
  proof (cases x)
    case None
    then show ?thesis using Cons.prems by simp
  next
    case (Some t)
    let ?tmp = "rayTriangleIntersect eye dir t"
    let ?res' = "if jlt ?tmp res then ?tmp else res"
    have "nearest eye dir ts ?res' = Inr d"
      using Cons.prems Some by (simp add: Let_def)
    from Cons.IH [OF this]
    have ih: "None \<notin> set ts" "d = ?res' \<or> (jlt d ?res' \<and> (\<exists>t. Some t \<in> set ts \<and> d = rayTriangleIntersect eye dir t))"
      by blast+
    show ?thesis
    proof (cases "jlt ?tmp res")
      case True
      then show ?thesis using ih Some by (auto intro: jlt_trans)
    next
      case False
      then show ?thesis using ih Some by auto
    qed
  qed
qed

lemma nearest_all_miss:
  "None \<notin> set ts \<Longrightarrow> \<forall>t. Some t \<in> set ts \<longrightarrow> rayTriangleIntersect eye dir t = maxT \<Longrightarrow>
   nearest eye dir ts maxT = Inr maxT"
proof (induction ts)
  case Nil
  then show ?case by simp
next
  case (Cons x ts)
  then obtain t where x: "x = Some t" by (cases x) auto
  have "rayTriangleIntersect eye dir t = maxT" using Cons.prems(2) x by simp
  moreover have "\<not> jlt maxT maxT" by (simp add: maxT_def)
  ultimately show ?case using Cons x by (simp add: Let_def)
qed

lemma nearest_valid: "None \<notin> set ts \<Longrightarrow> \<exists>d. nearest eye dir ts res = Inr d"
proof (induction ts arbitrary: res)
  case Nil
  then show ?case by simp
next
  case (Cons x ts)
  then obtain t where x: "x = Some t" and ts: "None \<notin> set ts" by (cases x) auto
  from Cons.IH [OF ts] show ?case using x by (simp add: Let_def)
qed

lemma hit_values_not_NaN: "d \<in> hit_values eye dir T \<Longrightarrow> d \<noteq> NaN"
  by (auto simp: hit_values_def maxT_def dest: jlt_not_NaN)

lemma hit_values_jmin:
  "a \<in> hit_values eye dir T \<Longrightarrow> b \<in> hit_values eye dir T \<Longrightarrow> jmin a b \<in> hit_values eye dir T"
  using jmin_cases [of a b] hit_values_not_NaN [of a] hit_values_not_NaN [of b] by metis

lemma visited_hit:
  "visited res c = Inr d \<Longrightarrow> c \<in> hit_values eye dir T \<Longrightarrow>
   (\<And>x. res = Inr x \<Longrightarrow> x \<in> hit_values eye dir T) \<Longrightarrow> d \<in> hit_values eye dir T"
  by (cases res) (auto simp: visited_def intro: hit_values_jmin)

lemma processLeaf_hit:
  assumes "processLeaf eye dir tris idxs = Inr d"
  shows "d \<in> hit_values eye dir (set (map the (getTriangles tris idxs)))"
proof -
  from nearest_result [OF assms [unfolded processLeaf_def]]
  have "d = maxT \<or> (jlt d maxT \<and> (\<exists>t. Some t \<in> set (getTriangles tris idxs) \<and> d = rayTriangleIntersect eye dir t))"
    by blast
  then show ?thesis
  proof
    assume "d = maxT"
    then show ?thesis by (simp add: hit_values_def)
  next
    assume "jlt d maxT \<and> (\<exists>t. Some t \<in> set (getTriangles tris idxs) \<and> d = rayTriangleIntersect eye dir t)"
    then obtain t where t: "jlt d maxT" "Some t \<in> set (getTriangles tris idxs)" "d = rayTriangleIntersect eye dir t"
      by blast
    have "t \<in> the ` set (getTriangles tris idxs)"
      using t(2) by force
    then show ?thesis using t by (auto simp: hit_values_def)
  qed
qed

lemma hit_values_mono: "A \<subseteq> B \<Longrightarrow> hit_values eye dir A \<subseteq> hit_values eye dir B"
  by (auto simp: hit_values_def)

lemma findTriangles_Internal:
  "findTriangles eye dir tris (Internal box sp l r) closest =
     (let tL = rayBoxIntersect eye dir (node_box l);
          tR = rayBoxIntersect eye dir (node_box r);
          goL = (\<lambda>c. if jlt tL maxT \<and> jlt tL c then visited (findTriangles eye dir tris l c) c else Inr c);
          goR = (\<lambda>c. if jlt tR maxT \<and> jlt tR c then visited (findTriangles eye dir tris r c) c else Inr c)
      in if jlt tL tR
         then (case goL closest of Inl err \<Rightarrow> Inl err | Inr c1 \<Rightarrow> goR c1)
         else (case goR closest of Inl err \<Rightarrow> Inl err | Inr c1 \<Rightarrow> goL c1))"
proof -
  have second: "[a, b] ! 1 = b" for a b :: "child option \<times> jsnum"
    by simp
  show ?thesis
    by (cases "jlt (rayBoxIntersect eye dir (node_box l)) (rayBoxIntersect eye dir (node_box r))";
        cases "jlt (rayBoxIntersect eye dir (node_box l)) maxT";
        cases "jlt (rayBoxIntersect eye dir (node_box r)) maxT")
      (simp_all add: closestNode_def Let_def second cong: sum.case_cong)
qed

lemma findTriangles_hit:
  "findTriangles eye dir tris t c = Inr d \<Longrightarrow> c \<in> hit_values eye dir T \<Longrightarrow>
   set (tree_triangles tris t) \<subseteq> T \<Longrightarrow> d \<in> hit_values eye dir T"
proof (induction t arbitrary: c d)
  case (Leaf box sp idxs)
  from Leaf.prems(1) have "processLeaf eye dir tris idxs = Inr d" by simp
  from processLeaf_hit [OF this] hit_values_mono [of "set (map the (getTriangles tris idxs))" T eye dir]
  show ?case using Leaf.prems(3) by (auto simp: tree_triangles_def)
next
  case (Internal box sp l r)
  have sub: "set (tree_triangles tris l) \<subseteq> T" "set (tree_triangles tris r) \<subseteq> T"
    using Internal.prems(3) by (auto simp: tree_triangles_def)
  let ?tL = "rayBoxIntersect eye dir (node_box l)"
  let ?tR = "rayBoxIntersect eye dir (node_box r)"
  define goL where "goL = (\<lambda>c. if jlt ?tL maxT \<and> jlt ?tL c then visited (findTriangles eye dir tris l c) c else Inr c)"
  define goR where "goR = (\<lambda>c. if jlt ?tR maxT \<and> jlt ?tR c then visited (findTriangles eye dir tris r c) c else Inr c)"
  have L: "x \<in> hit_values eye dir T" if "goL c' = Inr x" "c' \<in> hit_values eye dir T" for c' x
    using that Internal.IH(1) [OF _ that(2) sub(1)]
    by (auto simp: goL_def split: if_splits intro: visited_hit)
  have R: "x \<in> hit_values eye dir T" if "goR c' = Inr x" "c' \<in> hit_values eye dir T" for c' x
    using that Internal.IH(2) [OF _ that(2) sub(2)]
    by (auto simp: goR_def split: if_splits intro: visited_hit)
  have eq: "findTriangles eye dir tris (Internal box sp l r) c =
      (if jlt ?tL ?tR
         then (case goL c of Inl err \<Rightarrow> Inl err | Inr c1 \<Rightarrow> goR c1)
         else (case goR c of Inl err \<Rightarrow> Inl err | Inr c1 \<Rightarrow> goL c1))"
    unfolding findTriangles_Internal goL_def goR_def Let_def ..
  show ?case
    using Internal.prems(1,2) L R unfolding eq
    by (auto split: if_splits sum.splits)
qed

lemma findTriangles_valid:
  "leaves_valid tris t \<Longrightarrow> \<exists>d. findTriangles eye dir tris t c = Inr d"
proof (induction t arbitrary: c)
  case (Leaf box sp idxs)
  then have "None \<notin> set (getTriangles tris idxs)"
    by (auto simp: getTriangles_def list_all_iff)
  from nearest_valid [OF this] show ?case
    by (simp add: processLeaf_def)
next
  case (Internal box sp l r)
  let ?tL = "rayBoxIntersect eye dir (node_box l)"
  let ?tR = "rayBoxIntersect eye dir (node_box r)"
  define goL where "goL = (\<lambda>c. if jlt ?tL maxT \<and> jlt ?tL c then visited (findTriangles eye dir tris l c) c else Inr c)"
  define goR where "goR = (\<lambda>c. if jlt ?tR maxT \<and> jlt ?tR c then visited (findTriangles eye dir tris r c) c else Inr c)"
  have vl: "leaves_valid tris l" and vr: "leaves_valid tris r"
    using Internal.prems by simp_all
  have L: "\<exists>x. goL c' = Inr x" for c'
    using Internal.IH(1) [OF vl, of c'] by (auto simp: goL_def visited_def)
  have R: "\<exists>x. goR c' = Inr x" for c'
    using Internal.IH(2) [OF vr, of c'] by (auto simp: goR_def visited_def)
  have eq: "findTriangles eye dir tris (Internal box sp l r) c =
      (if jlt ?tL ?tR
         then (case goL c of Inl err \<Rightarrow> Inl err | Inr c1 \<Rightarrow> goR c1)
         else (case goR c of Inl err \<Rightarrow> Inl err | Inr c1 \<Rightarrow> goL c1))"
    unfolding findTriangles_Internal goL_def goR_def Let_def ..
  obtain x where x: "goL c = Inr x" using L by blast
  obtain y where y: "goR c = Inr y" using R by blast
  show ?case
    unfolding eq using x y L [of y] R [of x] by auto
qed

lemma rayTriangleIntersect_not_NaN: "rayTriangleIntersect eye dir tri \<noteq> NaN"
  using rayTriangleIntersect_range [of eye dir tri] jlt_not_NaN [of epsilon]
  by (auto simp: maxT_def)

lemma reached_mono:
  "jle d d' \<Longrightarrow> set (reached eye dir d t) \<subseteq> set (reached eye dir d' t)"
  by (induction t) (auto dest: jlt_jle_trans)

lemma none_nearer_weaken:
  assumes "none_nearer eye dir tris x' S'" "set S \<subseteq> set S'" "jle x x'"
  shows "none_nearer eye dir tris x S"
  unfolding none_nearer_def
proof
  fix s assume "s \<in> set S"
  then have "s \<in> set S'" using assms(2) by blast
  with assms(1) obtain i where i: "s = Some i" "i < length tris"
    "\<not> jlt (rayTriangleIntersect eye dir (tris ! i)) x'"
    unfolding none_nearer_def by blast
  have "\<not> jlt (rayTriangleIntersect eye dir (tris ! i)) x"
    using i(3) assms(3) jlt_jle_trans by blast
  with i show "\<exists>i. s = Some i \<and> i < length tris
      \<and> \<not> jlt (rayTriangleIntersect eye dir (tris ! i)) x"
    by blast
qed

lemma nearest_least:
  "nearest eye dir ts res = Inr d \<Longrightarrow> res \<noteq> NaN \<Longrightarrow>
   d \<noteq> NaN \<and> jle d res
   \<and> (\<forall>t. Some t \<in> set ts \<longrightarrow> \<not> jlt (rayTriangleIntersect eye dir t) d)"
proof (induction ts arbitrary: res)
  case Nil
  then show ?case by (simp add: jle_refl)
next
  case (Cons x ts)
  show ?case
  proof (cases x)
    case None
    then show ?thesis using Cons.prems by simp
  next
    case (Some t)
    let ?tmp = "rayTriangleIntersect eye dir t"
    let ?res' = "if jlt ?tmp res then ?tmp else res"
    have run: "nearest eye dir ts ?res' = Inr d"
      using Cons.prems(1) Some by (simp add: Let_def)
    have nn: "?res' \<noteq> NaN"
      using Cons.prems(2) rayTriangleIntersect_not_NaN by simp
    from Cons.IH [OF run nn]
    have ih: "d \<noteq> NaN" "jle d ?res'"
      "\<forall>t. Some t \<in> set ts \<longrightarrow> \<not> jlt (rayTriangleIntersect eye dir t) d"
      by blast+
    have le: "jle d res"
    proof (cases "jlt ?tmp res")
      case True
      then have "jle d ?tmp" using ih(2) by simp
      then show ?thesis using True jlt_imp_jle jle_trans by blast
    next
      case False
      then show ?thesis using ih(2) by simp
    qed
    have own: "\<not> jlt ?tmp d"
    proof (cases "jlt ?tmp res")
      case True
      then have "jle d ?tmp" using ih(2) by simp
      then show ?thesis by (rule jle_not_jlt)
    next
      case False
      then show ?thesis using le jlt_jle_trans by blast
    qed
    show ?thesis
      using ih(1,3) le own Some by auto
  qed
qed

lemma processLeaf_least:
  assumes "processLeaf eye dir tris idxs = Inr d"
  shows "d \<noteq> NaN \<and> jle d maxT \<and> none_nearer eye dir tris d (elem3 idxs 0)"
proof -
  have run: "nearest eye dir (getTriangles tris idxs) maxT = Inr d"
    using assms by (simp add: processLeaf_def)
  have m: "maxT \<noteq> NaN" by (simp add: maxT_def)
  from nearest_least [OF run m]
  have d: "d \<noteq> NaN" "jle d maxT"
    and least: "\<forall>t. Some t \<in> set (getTriangles tris idxs) \<longrightarrow> \<not> jlt (rayTriangleIntersect eye dir t) d"
    by blast+
  from nearest_result [OF run]
  have valid: "None \<notin> set (getTriangles tris idxs)" by blast
  have "none_nearer eye dir tris d (elem3 idxs 0)"
    unfolding none_nearer_def
  proof
    fix s assume s: "s \<in> set (elem3 idxs 0)"
    then have in_set: "lookup tris s \<in> set (getTriangles tris idxs)"
      by (simp add: getTriangles_def)
    with valid have "lookup tris s \<noteq> None" by metis
    then obtain i where i: "s = Some i" "i < length tris" "lookup tris s = Some (tris ! i)"
      by (cases s) (auto split: if_splits)
    then have "\<not> jlt (rayTriangleIntersect eye dir (tris ! i)) d"
      using least in_set by simp
    with i show "\<exists>i. s = Some i \<and> i < length tris
        \<and> \<not> jlt (rayTriangleIntersect eye dir (tris ! i)) d"
      by blast
  qed
  with d show ?thesis by blast
qed

lemma findTriangles_least:
  "findTriangles eye dir tris t c = Inr d \<Longrightarrow> c \<noteq> NaN \<Longrightarrow> jle c maxT \<Longrightarrow>
   d \<noteq> NaN \<and> jle d maxT
   \<and> none_nearer eye dir tris (jmin d c) (reached eye dir (jmin d c) t)"
proof (induction t arbitrary: c d)
  case (Leaf box sp idxs)
  from Leaf.prems(1) have "processLeaf eye dir tris idxs = Inr d" by simp
  from processLeaf_least [OF this]
  have d: "d \<noteq> NaN" "jle d maxT" and n: "none_nearer eye dir tris d (elem3 idxs 0)"
    by blast+
  have "jle (jmin d c) d"
    using jmin_le(1) [OF d(1) Leaf.prems(2)] .
  from none_nearer_weaken [OF n _ this, of "elem3 idxs 0"]
  have "none_nearer eye dir tris (jmin d c) (elem3 idxs 0)" by simp
  then show ?case using d by simp
next
  case (Internal box sp l r)
  let ?tL = "rayBoxIntersect eye dir (node_box l)"
  let ?tR = "rayBoxIntersect eye dir (node_box r)"
  define goL where "goL = (\<lambda>c. if jlt ?tL maxT \<and> jlt ?tL c then visited (findTriangles eye dir tris l c) c else Inr c)"
  define goR where "goR = (\<lambda>c. if jlt ?tR maxT \<and> jlt ?tR c then visited (findTriangles eye dir tris r c) c else Inr c)"
  have L: "x \<noteq> NaN \<and> jle x c'
      \<and> (jlt ?tL x \<longrightarrow> none_nearer eye dir tris x (reached eye dir x l))"
    if "goL c' = Inr x" "c' \<noteq> NaN" "jle c' maxT" for c' x
  proof (cases "jlt ?tL maxT \<and> jlt ?tL c'")
    case True
    then have "visited (findTriangles eye dir tris l c') c' = Inr x"
      using that(1) by (simp add: goL_def)
    then obtain dl where dl: "findTriangles eye dir tris l c' = Inr dl" "x = jmin dl c'"
      by (cases "findTriangles eye dir tris l c'") (auto simp: visited_def)
    from Internal.IH(1) [OF dl(1) that(2,3)]
    have "dl \<noteq> NaN" "none_nearer eye dir tris (jmin dl c') (reached eye dir (jmin dl c') l)"
      by blast+
    then show ?thesis
      using jmin_le [OF \<open>dl \<noteq> NaN\<close> that(2)] dl(2) by simp
  next
    case False
    have x: "x = c'" using that(1) False unfolding goL_def by (auto split: if_splits)
    have "\<not> jlt ?tL c'"
      using False that(3) jlt_jle_trans by blast
    then show ?thesis
      using x that(2) by (simp add: jle_refl)
  qed
  have R: "x \<noteq> NaN \<and> jle x c'
      \<and> (jlt ?tR x \<longrightarrow> none_nearer eye dir tris x (reached eye dir x r))"
    if "goR c' = Inr x" "c' \<noteq> NaN" "jle c' maxT" for c' x
  proof (cases "jlt ?tR maxT \<and> jlt ?tR c'")
    case True
    then have "visited (findTriangles eye dir tris r c') c' = Inr x"
      using that(1) by (simp add: goR_def)
    then obtain dr where dr: "findTriangles eye dir tris r c' = Inr dr" "x = jmin dr c'"
      by (cases "findTriangles eye dir tris r c'") (auto simp: visited_def)
    from Internal.IH(2) [OF dr(1) that(2,3)]
    have "dr \<noteq> NaN" "none_nearer eye dir tris (jmin dr c') (reached eye dir (jmin dr c') r)"
      by blast+
    then show ?thesis
      using jmin_le [OF \<open>dr \<noteq> NaN\<close> that(2)] dr(2) by simp
  next
    case False
    have x: "x = c'" using that(1) False unfolding goR_def by (auto split: if_splits)
    have "\<not> jlt ?tR c'"
      using False that(3) jlt_jle_trans by blast
    then show ?thesis
      using x that(2) by (simp add: jle_refl)
  qed
  have eq: "findTriangles eye dir tris (Internal box sp l r) c =
      (if jlt ?tL ?tR
         then (case goL c of Inl err \<Rightarrow> Inl err | Inr c1 \<Rightarrow> goR c1)
         else (case goR c of Inl err \<Rightarrow> Inl err | Inr c1 \<Rightarrow> goL c1))"
    unfolding findTriangles_Internal goL_def goR_def Let_def ..
  have both: "d \<noteq> NaN \<and> jle d c
      \<and> (jlt ?tL d \<longrightarrow> none_nearer eye dir tris d (reached eye dir d l))
      \<and> (jlt ?tR d \<longrightarrow> none_nearer eye dir tris d (reached eye dir d r))"
  proof (cases "jlt ?tL ?tR")
    case True
    then obtain c1 where c1: "goL c = Inr c1" "goR c1 = Inr d"
      using Internal.prems(1) unfolding eq by (auto split: sum.splits)
    from L [OF c1(1) Internal.prems(2,3)]
    have f: "c1 \<noteq> NaN" "jle c1 c"
      "jlt ?tL c1 \<longrightarrow> none_nearer eye dir tris c1 (reached eye dir c1 l)"
      by blast+
    have "jle c1 maxT" using f(2) Internal.prems(3) jle_trans by blast
    from R [OF c1(2) f(1) this]
    have s: "d \<noteq> NaN" "jle d c1"
      "jlt ?tR d \<longrightarrow> none_nearer eye dir tris d (reached eye dir d r)"
      by blast+
    have "none_nearer eye dir tris d (reached eye dir d l)" if "jlt ?tL d"
    proof -
      have "jlt ?tL c1" using that s(2) jlt_jle_trans by blast
      with f(3) have "none_nearer eye dir tris c1 (reached eye dir c1 l)" by blast
      from none_nearer_weaken [OF this reached_mono [OF s(2)] s(2)] show ?thesis .
    qed
    then show ?thesis
      using s f(2) jle_trans by blast
  next
    case False
    then obtain c1 where c1: "goR c = Inr c1" "goL c1 = Inr d"
      using Internal.prems(1) unfolding eq by (auto split: sum.splits)
    from R [OF c1(1) Internal.prems(2,3)]
    have f: "c1 \<noteq> NaN" "jle c1 c"
      "jlt ?tR c1 \<longrightarrow> none_nearer eye dir tris c1 (reached eye dir c1 r)"
      by blast+
    have "jle c1 maxT" using f(2) Internal.prems(3) jle_trans by blast
    from L [OF c1(2) f(1) this]
    have s: "d \<noteq> NaN" "jle d c1"
      "jlt ?tL d \<longrightarrow> none_nearer eye dir tris d (reached eye dir d l)"
      by blast+
    have "none_nearer eye dir tris d (reached eye dir d r)" if "jlt ?tR d"
    proof -
      have "jlt ?tR c1" using that s(2) jlt_jle_trans by blast
      with f(3) have "none_nearer eye dir tris c1 (reached eye dir c1 r)" by blast
      from none_nearer_weaken [OF this reached_mono [OF s(2)] s(2)] show ?thesis .
    qed
    then show ?thesis
      using s f(2) jle_trans by blast
  qed
  then have d: "d \<noteq> NaN" "jle d c" by blast+
  have m: "jmin d c = d" using d(2) by (rule jmin_absorb)
  have "jle d maxT" using d(2) Internal.prems(3) jle_trans by blast
  moreover have "none_nearer eye dir tris d (reached eye dir d (Internal box sp l r))"
    using both by (auto simp: none_nearer_def)
  ultimately show ?case
    using d(1) m by simp
qed

text \<open>
  The ray from \<open>(0.25, 0.25, 2.25)\<close> along \<open>-z\<close> enters the box of the rising triangle
  at distance 1.25 and meets the triangle at distance 2; it enters the flat box of the
  unit triangle, and meets that triangle, at distance 2.25.
\<close>

lemma build_ramp: "BVH 2 [unit_triangle, ramp_triangle] 1 = Some (Inr ramp_tree)"
  by (simp add: bvh_defs ramp_triangle_def ramp_tree_def eval_nat_numeral)

lemmas box_defs =
  closestNode_def rayBoxIntersect_def visited_def processLeaf_def getTriangles_def jge_def
  jmin_def jmax_def signed_inf_def

lemma ramp_hit:
  "findTriangles (Num 0.25, Num 0.25, Num 2.25) (Num 0, Num 0, Num (- 1))
     [unit_triangle, ramp_triangle] ramp_tree maxT = Inr (Num 2)"
  by (simp add: ramp_tree_def ramp_triangle_def box_defs ray_defs)

lemma ramp_boxes:
  "rayBoxIntersect (Num 0.25, Num 0.25, Num 2.25) (Num 0, Num 0, Num (- 1))
     \<lparr> bb_min = (Num 0, Num 0, Num 0), bb_max = (Num 1, Num 1, Num 0) \<rparr> = Num 2.25"
  "rayBoxIntersect (Num 0.25, Num 0.25, Num 2.25) (Num 0, Num 0, Num (- 1))
     \<lparr> bb_min = (Num 0, Num 0, Num 0), bb_max = (Num 1, Num 1, Num 1) \<rparr> = Num 1.25"
  by (simp_all add: box_defs jsub_def Let_def)

lemma ramp_distances:
  "rayTriangleIntersect (Num 0.25, Num 0.25, Num 2.25) (Num 0, Num 0, Num (- 1)) unit_triangle
     = Num 2.25"
  "rayTriangleIntersect (Num 0.25, Num 0.25, Num 2.25) (Num 0, Num 0, Num (- 1)) ramp_triangle
     = Num 2"
  by (simp_all add: ramp_triangle_def ray_defs)

lemma ramp_reached:
  "reached (Num 0.25, Num 0.25, Num 2.25) (Num 0, Num 0, Num (- 1)) (Num 2) ramp_tree = [Some 1]"
  "reached (Num 0.25, Num 0.25, Num 2.25) (Num 0, Num 0, Num (- 1)) maxT ramp_tree
     = [Some 0, Some 1]"
  by (simp_all add: ramp_tree_def box_defs jsub_def Let_def maxT_def)

text \<open>
  A ray along \<open>-z\<close> whose eye lies in the plane \<open>x = 0\<close>, a face plane of both boxes of
  the two-leaf tree: the slab test multiplies the difference 0 by the infinite inverse
  direction, the box test fails for both children, and the traversal returns the
  sentinel although the ray meets the unit triangle at distance 1. The statement below
  therefore speaks of the leaves reached through boxes whose test succeeds.
\<close>

lemma face_plane_ray:
  "rayTriangleIntersect (Num 0, Num 0.25, Num 1) (Num 0, Num 0, Num (- 1)) unit_triangle = Num 1"
  "rayBoxIntersect (Num 0, Num 0.25, Num 1) (Num 0, Num 0, Num (- 1))
     \<lparr> bb_min = (Num 0, Num 0, Num 0), bb_max = (Num 1, Num 1, Num 0) \<rparr> = maxT"
  "findTriangles (Num 0, Num 0.25, Num 1) (Num 0, Num 0, Num (- 1))
     [unit_triangle, unit_triangle] two_leaves maxT = Inr maxT"
  by (simp_all add: two_leaves_def box_defs ray_defs)


lemma miss_eval:
  "shootAutoFocusRay (Num 0.25, Num 0.25, Num 1) (Num 0, Num 0, Num 1) [unit_triangle] single_leaf
     \<lparr> lensFeatures = (Num 0, Num 0.1), focalDepthValue = ToFixed 3 (Num 1) \<rparr>
   = Inr \<lparr> lensFeatures = (Num (999999 / 1000000), Num 0.1),
           focalDepthValue = ToFixed 3 (Num 1000000) \<rparr>"
  by (simp add: shootAutoFocusRay_def single_leaf_def processLeaf_def getTriangles_def ray_defs)



end
